theory Spec2Isabelle
  imports Main "HOL-Library.Sublist"
begin

section \<open>Python text\<close>

text \<open>
  A Python \<open>str\<close> is a sequence of Unicode code points. A code point is a natural number
  here, so that every text the program can read is covered (an 8-bit \<open>char\<close> would stop
  at U+00FF). \<open>u\<close> turns an ASCII literal into such a text.
\<close>

type_synonym codepoint = nat
type_synonym str = "codepoint list"

definition u :: "string \<Rightarrow> str" where
  "u cs = map of_char cs"

text \<open>
  \<open>str.strip()\<close> without argument removes the characters for which CPython's
  \<open>Py_UNICODE_ISSPACE\<close> holds: U+0009..U+000D, U+001C..U+0020, U+0085, U+00A0, U+1680,
  U+2000..U+200A, U+2028, U+2029, U+202F, U+205F, U+3000.
\<close>

definition isspace :: "codepoint \<Rightarrow> bool" where
  "isspace c = ((9 \<le> c \<and> c \<le> 13) \<or> (28 \<le> c \<and> c \<le> 32) \<or> c = 133 \<or> c = 160
     \<or> c = 5760 \<or> (8192 \<le> c \<and> c \<le> 8202) \<or> c = 8232 \<or> c = 8233 \<or> c = 8239
     \<or> c = 8287 \<or> c = 12288)"

definition strip :: "str \<Rightarrow> str" where
  "strip s = rev (dropWhile isspace (rev (dropWhile isspace s)))"

text \<open>\<open>s.endswith(':')\<close> and \<open>s[:-1]\<close>.\<close>

definition endswith_colon :: "str \<Rightarrow> bool" where
  "endswith_colon s = (s \<noteq> [] \<and> last s = 58)"

text \<open>\<open>sub in s\<close>: \<open>sub\<close> occurs in \<open>s\<close> as a contiguous block.\<close>

fun contains :: "str \<Rightarrow> str \<Rightarrow> bool" where
  "contains sub [] = (sub = [])"
| "contains sub (c # cs) = (prefix sub (c # cs) \<or> contains sub cs)"

text \<open>\<open>s.find(sub)\<close>: the lowest index at which \<open>sub\<close> starts in \<open>s\<close>, or -1.\<close>

fun find_from :: "nat \<Rightarrow> str \<Rightarrow> str \<Rightarrow> int" where
  "find_from i sub [] = (if sub = [] then int i else - 1)"
| "find_from i sub (c # cs) = (if prefix sub (c # cs) then int i else find_from (Suc i) sub cs)"

definition find :: "str \<Rightarrow> str \<Rightarrow> int" where
  "find s sub = find_from 0 sub s"

text \<open>\<open>s[:k]\<close>: a negative \<open>k\<close> counts from the end.\<close>

definition slice_to :: "str \<Rightarrow> int \<Rightarrow> str" where
  "slice_to s k = (if k < 0 then take (length s - nat (- k)) s else take (nat k) s)"

section \<open>The replacement table\<close>

definition replacements :: "(str \<times> str) list" where
  "replacements = map (\<lambda>(k, v). (u k, u v))
    [(''web3_universal_core'', ''^0.1.1''),
     (''web3_universal_crypto'', ''^0.2.0''),
     (''web3_universal_abi'', ''^0.1.1''),
     (''web3_universal_chains'', ''^0.1.0+1''),
     (''web3_universal_signer'', ''^0.1.1''),
     (''web3_universal_provider'', ''^0.1.0+1''),
     (''web3_universal_client'', ''^0.1.1+1''),
     (''web3_universal_contract'', ''^0.1.0+1''),
     (''web3_universal_ens'', ''^0.1.1+1''),
     (''web3_universal_aa'', ''^0.1.1+1''),
     (''web3_universal_reown'', ''^0.1.1''),
     (''web3_universal_swap'', ''^0.1.0+2''),
     (''web3_universal_price'', ''^0.1.1''),
     (''web3_universal_utxo'', ''^0.1.0+1''),
     (''web3_universal_bc_ur'', ''^0.1.0+1''),
     (''web3_universal_keystone'', ''^0.1.0+1''),
     (''web3_universal_ledger'', ''^0.1.0+1''),
     (''web3_universal_trezor'', ''^0.1.0+1''),
     (''web3_universal_mpc'', ''^0.1.0+1''),
     (''web3_universal_nft'', ''^0.1.1+1''),
     (''web3_universal_multicall'', ''^0.1.0+2''),
     (''web3_universal_mev'', ''^0.1.1''),
     (''web3_universal_staking'', ''^0.1.1+1''),
     (''web3_universal_history'', ''^0.1.1+1''),
     (''web3_universal_events'', ''^0.1.0+2''),
     (''web3_universal_solana'', ''^0.1.1''),
     (''web3_universal_bitcoin'', ''^0.1.1''),
     (''web3_universal_aptos'', ''^0.1.0''),
     (''web3_universal_ton'', ''^0.1.1''),
     (''web3_universal_tron'', ''^0.1.1''),
     (''web3_universal_polkadot'', ''^0.1.1''),
     (''web3_universal_cosmos'', ''^0.1.1''),
     (''web3_universal_debug'', ''^0.1.1''),
     (''web3_universal_bridge'', ''^0.1.0+2''),
     (''web3_universal_dapp'', ''^0.1.1+1''),
     (''web3_universal_compat'', ''^0.1.0'')]"

text \<open>\<open>name in replacements\<close> and \<open>replacements[name]\<close>; the keys of the literal are distinct.\<close>

definition lookup :: "str \<Rightarrow> str option" where
  "lookup name = map_of replacements name"

section \<open>The scan of \<open>fix_file\<close>\<close>

text \<open>
  The loop \<open>for i, line in enumerate(lines)\<close> with its three variables. One iteration is
  \<open>step\<close>; the early \<open>continue\<close>s are the branches that return without appending \<open>line\<close>.
\<close>

record scan_state =
  new_lines :: "str list"
  modified :: bool
  skip_next :: bool

definition path_indicator :: str where
  "path_indicator = u ''path:''"

definition version_line :: "str \<Rightarrow> str \<Rightarrow> str \<Rightarrow> str" where
  "version_line line pkg_name version =
     slice_to line (find line pkg_name) @ pkg_name @ u '': '' @ version @ [10]"

definition step :: "str list \<Rightarrow> scan_state \<Rightarrow> nat \<times> str \<Rightarrow> scan_state" where
  "step lines st il =
     (let i = fst il; line = snd il in
      if skip_next st then st\<lparr>skip_next := False\<rparr>
      else
        let stripped = strip line;
            pkg_name = butlast stripped
        in
          if endswith_colon stripped then
            (case lookup pkg_name of
               Some version \<Rightarrow>
                 if i + 1 < length lines \<and> contains path_indicator (lines ! (i + 1))
                 then st\<lparr>new_lines := new_lines st @ [version_line line pkg_name version],
                         skip_next := True, modified := True\<rparr>
                 else st\<lparr>new_lines := new_lines st @ [line]\<rparr>
             | None \<Rightarrow> st\<lparr>new_lines := new_lines st @ [line]\<rparr>)
          else st\<lparr>new_lines := new_lines st @ [line]\<rparr>)"

definition scan_init :: scan_state where
  "scan_init = \<lparr>new_lines = [], modified = False, skip_next = False\<rparr>"

definition scan_loop :: "str list \<Rightarrow> scan_state" where
  "scan_loop lines = foldl (step lines) scan_init (enumerate 0 lines)"

definition scan :: "str list \<Rightarrow> str list \<times> bool" where
  "scan lines = (new_lines (scan_loop lines), modified (scan_loop lines))"

subsection \<open>The scan as a recursion on the remaining lines\<close>

text \<open>
  The same scan read off the list: \<open>pkg_of\<close> is the test of lines 67 to 70 (the trimmed line
  ends with a colon and what precedes the colon is a key of the table), \<open>block\<close> adds the
  test of the following line, \<open>replaced\<close> is the line appended at line 78. \<open>rewrite\<close> and
  \<open>changed\<close> are proved below to be the two results of \<open>scan\<close>.
\<close>

definition pkg_of :: "str \<Rightarrow> (str \<times> str) option" where
  "pkg_of line =
     (let stripped = strip line in
      if endswith_colon stripped
      then map_option (Pair (butlast stripped)) (lookup (butlast stripped))
      else None)"

definition replaced :: "str \<Rightarrow> str" where
  "replaced line = (case pkg_of line of Some (k, v) \<Rightarrow> version_line line k v | None \<Rightarrow> line)"

definition block :: "str \<Rightarrow> str \<Rightarrow> bool" where
  "block l n = (pkg_of l \<noteq> None \<and> contains path_indicator n)"

fun rewrite :: "str list \<Rightarrow> str list" where
  "rewrite (l # n # rest) =
     (if block l n then replaced l # rewrite rest else l # rewrite (n # rest))"
| "rewrite ls = ls"

fun changed :: "str list \<Rightarrow> bool" where
  "changed (l # n # rest) = (if block l n then True else changed (n # rest))"
| "changed ls = False"

subsection \<open>What each iteration did\<close>

text \<open>
  The loop run once more, recording for every input line what its iteration did: it was
  skipped because the flag was set (\<open>Consumed\<close>), it set the flag (\<open>Rewritten\<close>), or it
  reached line 83 (\<open>Copied\<close>).
\<close>

datatype mark = Copied | Rewritten | Consumed

definition mark_of :: "scan_state \<Rightarrow> scan_state \<Rightarrow> mark" where
  "mark_of st st' =
     (if skip_next st then Consumed else if skip_next st' then Rewritten else Copied)"

fun run_marks :: "str list \<Rightarrow> scan_state \<Rightarrow> (nat \<times> str) list \<Rightarrow> mark list" where
  "run_marks lines st [] = []"
| "run_marks lines st (il # ils) =
     mark_of st (step lines st il) # run_marks lines (step lines st il) ils"

definition marks :: "str list \<Rightarrow> mark list" where
  "marks lines = run_marks lines scan_init (enumerate 0 lines)"

definition rewrite_count :: "str list \<Rightarrow> nat" where
  "rewrite_count lines = length (filter (\<lambda>m. m = Rewritten) (marks lines))"

fun emit :: "str \<times> mark \<Rightarrow> str list" where
  "emit (l, Copied) = [l]"
| "emit (l, Rewritten) = [replaced l]"
| "emit (l, Consumed) = []"

definition copied_lines :: "str list \<Rightarrow> str list" where
  "copied_lines lines = map fst (filter (\<lambda>lm. snd lm = Copied) (zip lines (marks lines)))"

section \<open>Files\<close>

text \<open>
  A file holds bytes. \<open>fix_file\<close> opens it with \<open>encoding='utf-8'\<close>, so the text read is
  the strict UTF-8 decoding of the bytes and the text written reaches the file as its UTF-8
  bytes. The codec accepts the scalar values only: the code points up to U+10FFFF but the
  surrogates.
\<close>

datatype byte = Byte nat

definition scalar :: "codepoint \<Rightarrow> bool" where
  "scalar c = (c < 55296 \<or> (57344 \<le> c \<and> c < 1114112))"

definition utf8_char :: "codepoint \<Rightarrow> byte list" where
  "utf8_char c =
     (if c < 128 then [Byte c]
      else if c < 2048 then [Byte (192 + c div 64), Byte (128 + c mod 64)]
      else if c < 65536 then
        [Byte (224 + c div 4096), Byte (128 + c div 64 mod 64), Byte (128 + c mod 64)]
      else
        [Byte (240 + c div 262144), Byte (128 + c div 4096 mod 64),
         Byte (128 + c div 64 mod 64), Byte (128 + c mod 64)])"

text \<open>The bytes of a text, one code point after the other.\<close>

definition utf8 :: "str \<Rightarrow> byte list" where
  "utf8 s = concat (map utf8_char s)"

text \<open>\<open>str.encode\<close>: a code point that is not a scalar value raises \<open>UnicodeEncodeError\<close>.\<close>

definition utf8_encode :: "str \<Rightarrow> byte list option" where
  "utf8_encode s = (if list_all scalar s then Some (utf8 s) else None)"

text \<open>
  \<open>bytes.decode\<close>: \<open>None\<close> is \<open>UnicodeDecodeError\<close>. A sequence is refused when it is cut
  short, when a continuation byte is out of range, when it is longer than the code point
  needs, and when the code point is a surrogate or lies beyond U+10FFFF.
\<close>

definition cont :: "nat \<Rightarrow> bool" where
  "cont b = (128 \<le> b \<and> b < 192)"

fun utf8_decode :: "byte list \<Rightarrow> str option" where
  "utf8_decode [] = Some []"
| "utf8_decode (Byte b # bs) =
     (if b < 128 then map_option (Cons b) (utf8_decode bs)
      else if b < 192 then None
      else if b < 224 then
        (case bs of
           Byte b1 # r \<Rightarrow>
             (let c = (b - 192) * 64 + (b1 - 128) in
              if cont b1 \<and> 128 \<le> c then map_option (Cons c) (utf8_decode r) else None)
         | [] \<Rightarrow> None)
      else if b < 240 then
        (case bs of
           Byte b1 # Byte b2 # r \<Rightarrow>
             (let c = (b - 224) * 4096 + (b1 - 128) * 64 + (b2 - 128) in
              if cont b1 \<and> cont b2 \<and> 2048 \<le> c \<and> scalar c
              then map_option (Cons c) (utf8_decode r) else None)
         | _ \<Rightarrow> None)
      else if b < 248 then
        (case bs of
           Byte b1 # Byte b2 # Byte b3 # r \<Rightarrow>
             (let c = (b - 240) * 262144 + (b1 - 128) * 4096 + (b2 - 128) * 64 + (b3 - 128) in
              if cont b1 \<and> cont b2 \<and> cont b3 \<and> 65536 \<le> c \<and> c < 1114112
              then map_option (Cons c) (utf8_decode r) else None)
         | _ \<Rightarrow> None)
      else None)"

text \<open>
  \<open>open(file_path, 'r', encoding='utf-8')\<close> reads in universal-newlines mode: \<open>\r\n\<close> and
  a lone \<open>\r\<close> arrive as \<open>\n\<close>. \<open>readlines()\<close> cuts the text after every \<open>\n\<close> and keeps it.
\<close>

fun universal_newlines :: "str \<Rightarrow> str" where
  "universal_newlines (c # d # cs) =
     (if c = 13 \<and> d = 10 then 10 # universal_newlines cs
      else if c = 13 then 10 # universal_newlines (d # cs)
      else c # universal_newlines (d # cs))"
| "universal_newlines [c] = [if c = 13 then 10 else c]"
| "universal_newlines [] = []"

fun split_lines :: "str \<Rightarrow> str \<Rightarrow> str list" where
  "split_lines cur [] = (if cur = [] then [] else [cur])"
| "split_lines cur (c # cs) =
     (if c = 10 then (cur @ [c]) # split_lines [] cs else split_lines (cur @ [c]) cs)"

definition readlines :: "str \<Rightarrow> str list" where
  "readlines txt = split_lines [] (universal_newlines txt)"

text \<open>
  The exceptions the calls of \<open>fix_file\<close> can raise. \<open>except Exception\<close> catches the
  instances of \<open>Exception\<close>: all of them but \<open>KeyboardInterrupt\<close>.
\<close>

type_synonym path = str

datatype exn =
  FileNotFoundError path | OSError str | UnicodeDecodeError | UnicodeEncodeError
  | KeyboardInterrupt

fun is_Exception :: "exn \<Rightarrow> bool" where
  "is_Exception KeyboardInterrupt = False"
| "is_Exception e = True"

text \<open>
  The two \<open>print\<close> calls, kept as their fields: \<open>Fixed p\<close> is \<open>print(f"Fixed {file_path}")\<close>,
  \<open>Error_processing p e\<close> is \<open>print(f"Error processing {file_path}: {e}")\<close>.
\<close>

datatype report = Fixed path | Error_processing path exn

text \<open>
  The world the program acts on: the bytes of every file, the lines that were printed, and
  a log of every \<open>open(file_path, 'w')\<close> that succeeded. A path of the map is a file of its
  own: links, which give one file two paths, are not part of this world.
\<close>

record world =
  files :: "path \<rightharpoonup> byte list"
  console :: "report list"
  writes :: "path list"

text \<open>
  What the operating system answers during one call of \<open>fix_file\<close>: whether reading raises
  (an unreadable file), whether opening for writing raises (the file is then untouched),
  whether writing raises after the file was opened, and then how many bytes had reached
  the file, and whether each of the two \<open>print\<close> calls raises (a closed or broken standard
  output, a path that the console encoding cannot show).
\<close>

record env =
  read_fault :: "exn option"
  open_w_fault :: "exn option"
  write_fault :: "(nat \<times> exn) option"
  print_fixed_fault :: "exn option"
  print_error_fault :: "exn option"

definition read_lines :: "env \<Rightarrow> path \<Rightarrow> world \<Rightarrow> exn + str list" where
  "read_lines e p w =
     (case read_fault e of
        Some x \<Rightarrow> Inl x
      | None \<Rightarrow> (case files w p of
                   None \<Rightarrow> Inl (FileNotFoundError p)
                 | Some bs \<Rightarrow> (case utf8_decode bs of
                                None \<Rightarrow> Inl UnicodeDecodeError
                              | Some txt \<Rightarrow> Inr (readlines txt))))"

text \<open>
  \<open>f.writelines(new_lines)\<close> encodes the lines one after the other and hands their bytes
  to the file; a line that does not encode stops it, with the bytes of the lines before it
  handed over.
\<close>

fun writelines :: "str list \<Rightarrow> byte list \<times> exn option" where
  "writelines [] = ([], None)"
| "writelines (l # ls) =
     (case utf8_encode l of
        None \<Rightarrow> ([], Some UnicodeEncodeError)
      | Some b \<Rightarrow> (case writelines ls of (bs, r) \<Rightarrow> (b @ bs, r)))"

text \<open>
  \<open>open(file_path, 'w', encoding='utf-8', newline='\n')\<close> empties the file when it
  succeeds, and the \<open>with\<close> block closes it. When the operating system fails the write, the
  file keeps the bytes that had reached it: a prefix of the bytes handed over, which can
  end inside a character.
\<close>

definition write_lines :: "env \<Rightarrow> path \<Rightarrow> str list \<Rightarrow> world \<Rightarrow> (exn + unit) \<times> world" where
  "write_lines e p ls w =
     (case open_w_fault e of
        Some x \<Rightarrow> (Inl x, w)
      | None \<Rightarrow>
          (let w1 = w\<lparr>files := (files w)(p \<mapsto> []), writes := writes w @ [p]\<rparr> in
           case write_fault e of
             Some (k, x) \<Rightarrow> (Inl x, w1\<lparr>files := (files w1)(p \<mapsto> take k (fst (writelines ls)))\<rparr>)
           | None \<Rightarrow>
               (case snd (writelines ls) of
                  Some y \<Rightarrow> (Inl y, w1\<lparr>files := (files w1)(p \<mapsto> fst (writelines ls))\<rparr>)
                | None \<Rightarrow> (Inr (), w1\<lparr>files := (files w1)(p \<mapsto> fst (writelines ls))\<rparr>))))"

text \<open>\<open>print\<close>: the line is on the console when the call returns, and not when it raises.\<close>

definition print_line :: "exn option \<Rightarrow> report \<Rightarrow> world \<Rightarrow> (exn + unit) \<times> world" where
  "print_line fault r w =
     (case fault of
        Some x \<Rightarrow> (Inl x, w)
      | None \<Rightarrow> (Inr (), w\<lparr>console := console w @ [r]\<rparr>))"

text \<open>The body of the \<open>try\<close>, lines 53 to 88.\<close>

definition fix_file_try :: "env \<Rightarrow> path \<Rightarrow> world \<Rightarrow> (exn + unit) \<times> world" where
  "fix_file_try e p w =
     (case read_lines e p w of
        Inl x \<Rightarrow> (Inl x, w)
      | Inr lines \<Rightarrow>
          (if snd (scan lines)
           then (case write_lines e p (fst (scan lines)) w of
                   (Inl x, w') \<Rightarrow> (Inl x, w')
                 | (Inr _, w') \<Rightarrow> print_line (print_fixed_fault e) (Fixed p) w')
           else (Inr (), w)))"

text \<open>
  \<open>fix_file\<close>: the \<open>try\<close> with its handler. \<open>Inl\<close> is an exception that leaves the function:
  one that \<open>except Exception\<close> does not catch, or one that the \<open>print\<close> of the handler
  raises, which no \<open>try\<close> encloses.
\<close>

definition fix_file :: "env \<Rightarrow> path \<Rightarrow> world \<Rightarrow> (exn + unit) \<times> world" where
  "fix_file e p w =
     (case fix_file_try e p w of
        (Inl x, w') \<Rightarrow>
          (if is_Exception x
           then print_line (print_error_fault e) (Error_processing p x) w'
           else (Inl x, w'))
      | (Inr _, w') \<Rightarrow> (Inr (), w'))"

subsection \<open>The driver loop\<close>

definition roots :: "path list" where
  "roots =
     [u ''D:'' @ [92] @ u ''OtherProject'' @ [92] @ u ''mine'' @ [92] @ u ''dart_web3'' @ [92]
        @ u ''dart_web3'' @ [92] @ u ''packages'',
      u ''D:'' @ [92] @ u ''OtherProject'' @ [92] @ u ''mine'' @ [92] @ u ''dart_web3'' @ [92]
        @ u ''dart_web3'' @ [92] @ u ''web3_universal'']"

text \<open>
  \<open>os.walk\<close> and \<open>os.path.join\<close> belong to the platform and are parameters: \<open>walk r\<close> is
  the sequence of triples \<open>(root, dirs, files)\<close> that \<open>os.walk(r)\<close> yields (none when \<open>r\<close>
  cannot be listed). \<open>manifests\<close> is the sequence of paths the two nested loops hand to
  \<open>fix_file\<close>, in order.
\<close>

definition manifests ::
  "(path \<Rightarrow> (path \<times> str list \<times> str list) list) \<Rightarrow> (path \<Rightarrow> str \<Rightarrow> path) \<Rightarrow> path list" where
  "manifests walk join =
     concat (map (\<lambda>base_root.
       concat (map (\<lambda>(root, dirs, fs).
         if u ''pubspec.yaml'' \<in> set fs then [join root (u ''pubspec.yaml'')] else [])
         (walk base_root))) roots)"

text \<open>
  The calls in sequence; \<open>envs k\<close> is what the operating system answers during call
  number \<open>k\<close>. An exception that leaves \<open>fix_file\<close> ends the run.
\<close>

fun fix_all :: "(nat \<Rightarrow> env) \<Rightarrow> nat \<Rightarrow> path list \<Rightarrow> world \<Rightarrow> (exn + unit) \<times> world" where
  "fix_all envs k [] w = (Inr (), w)"
| "fix_all envs k (p # ps) w =
     (case fix_file (envs k) p w of
        (Inl x, w') \<Rightarrow> (Inl x, w')
      | (Inr _, w') \<Rightarrow> fix_all envs (Suc k) ps w')"

definition main ::
  "(path \<Rightarrow> (path \<times> str list \<times> str list) list) \<Rightarrow> (path \<Rightarrow> str \<Rightarrow> path) \<Rightarrow> (nat \<Rightarrow> env)
     \<Rightarrow> world \<Rightarrow> (exn + unit) \<times> world" where
  "main walk join envs w = fix_all envs 0 (manifests walk join) w"

section \<open>Auxiliary notions for the proofs\<close>

text \<open>What the proofs need of one entry of the table; it is checked on all of them.\<close>

definition entry_ok :: "str \<times> str \<Rightarrow> bool" where
  "entry_ok kv = (case kv of (k, v) \<Rightarrow>
     k \<noteq> [] \<and> \<not> isspace (hd k) \<and> v \<noteq> [] \<and> \<not> isspace (hd v) \<and> \<not> isspace (last v)
     \<and> last v \<noteq> 58 \<and> 13 \<notin> set k \<and> 13 \<notin> set v
     \<and> \<not> contains path_indicator (k @ [58])
     \<and> \<not> contains path_indicator (k @ u '': '' @ v))"

text \<open>The marks, read off the list like \<open>rewrite\<close>.\<close>

fun smarks :: "str list \<Rightarrow> mark list" where
  "smarks (l # n # rest) =
     (if block l n then Rewritten # Consumed # smarks rest else Copied # smarks (n # rest))"
| "smarks [l] = [Copied]"
| "smarks [] = []"

text \<open>
  The exceptions that a failure of reading, of writing or of printing raises, and the
  answers of the operating system that raise nothing else.
\<close>

fun io_failure :: "exn \<Rightarrow> bool" where
  "io_failure (FileNotFoundError p) = True"
| "io_failure (OSError m) = True"
| "io_failure UnicodeDecodeError = True"
| "io_failure UnicodeEncodeError = True"
| "io_failure KeyboardInterrupt = False"

definition io_failures_only :: "env \<Rightarrow> bool" where
  "io_failures_only e =
     ((case read_fault e of Some x \<Rightarrow> io_failure x | None \<Rightarrow> True)
      \<and> (case open_w_fault e of Some x \<Rightarrow> io_failure x | None \<Rightarrow> True)
      \<and> (case write_fault e of Some (k, x) \<Rightarrow> io_failure x | None \<Rightarrow> True)
      \<and> (case print_fixed_fault e of Some x \<Rightarrow> io_failure x | None \<Rightarrow> True)
      \<and> (case print_error_fault e of Some x \<Rightarrow> io_failure x | None \<Rightarrow> True))"

text \<open>What one call of \<open>fix_file\<close> prints.\<close>

definition reports :: "env \<Rightarrow> path \<Rightarrow> world \<Rightarrow> report list" where
  "reports e p w = drop (length (console w)) (console (snd (fix_file e p w)))"

text \<open>Every line but the last ends with a newline, as the lines that \<open>readlines\<close> returns do.\<close>

fun nl_terminated :: "str list \<Rightarrow> bool" where
  "nl_terminated (l # n # rest) = (l \<noteq> [] \<and> last l = 10 \<and> nl_terminated (n # rest))"
| "nl_terminated ls = True"

text \<open>The files of a directory that holds one file.\<close>

definition one_file :: "path \<Rightarrow> byte list \<Rightarrow> (path \<rightharpoonup> byte list)" where
  "one_file p bs q = (if q = p then Some bs else None)"

subsection \<open>Example data\<close>

text \<open>
  Answers of the operating system: no failure at all, a disk that is full after \<open>k\<close> bytes
  of the write, a file that cannot be read, and a file that cannot be read while standard
  output is a pipe that nobody reads any more.
\<close>

definition no_faults :: env where
  "no_faults = \<lparr>read_fault = None, open_w_fault = None, write_fault = None,
                 print_fixed_fault = None, print_error_fault = None\<rparr>"

definition disk_full :: "nat \<Rightarrow> env" where
  "disk_full k = no_faults\<lparr>write_fault := Some (k, OSError (u ''No space left on device''))\<rparr>"

definition unreadable :: env where
  "unreadable = no_faults\<lparr>read_fault := Some (OSError (u ''Permission denied''))\<rparr>"

definition unreadable_unprintable :: env where
  "unreadable_unprintable =
     unreadable\<lparr>print_error_fault := Some (OSError (u ''Broken pipe''))\<rparr>"

text \<open>
  A manifest with one dependency block, the same after a comment line with a character of
  two bytes, and a manifest without a block.
\<close>

definition ex_text :: str where
  "ex_text = u ''  web3_universal_core:'' @ 10 # u ''    path: ../core'' @ [10]"

definition ex_accent :: str where
  "ex_accent = 35 # 32 # 233 # 10 # ex_text"

definition ex_plain :: str where
  "ex_plain = u ''dependencies:'' @ 10 # u ''  http: ^1.0.0'' @ [10]"

text \<open>
  A run: each of the two roots is a directory that holds a \<open>pubspec.yaml\<close> with the block
  and nothing else.
\<close>

definition ex_walk :: "path \<Rightarrow> (path \<times> str list \<times> str list) list" where
  "ex_walk r = [(r, [], [u ''pubspec.yaml''])]"

definition ex_join :: "path \<Rightarrow> str \<Rightarrow> path" where
  "ex_join r n = r @ 92 # n"

definition ex_m1 :: path where
  "ex_m1 = ex_join (roots ! 0) (u ''pubspec.yaml'')"

definition ex_m2 :: path where
  "ex_m2 = ex_join (roots ! 1) (u ''pubspec.yaml'')"

definition ex_world :: world where
  "ex_world = \<lparr>files = [ex_m1 \<mapsto> utf8 ex_text, ex_m2 \<mapsto> utf8 ex_text], console = [], writes = []\<rparr>"

text \<open>The first call meets the answer \<open>e\<close>, the calls after it no failure.\<close>

definition first_call :: "env \<Rightarrow> nat \<Rightarrow> env" where
  "first_call e j = (if j = 0 then e else no_faults)"

section \<open>Properties of the scan\<close>

subsection \<open>Text\<close>

lemma contains_sublist: "contains sub s = sublist sub s"
  by (induction s) (simp_all add: sublist_Cons_right)

lemma contains_rev: "contains (rev sub) (rev s) = contains sub s"
  by (simp add: contains_sublist)

lemma contains_after_spaces:
  assumes "\<forall>c \<in> set a. isspace c" "sub \<noteq> []" "\<not> isspace (hd sub)"
  shows "contains sub (a @ s) = contains sub s"
  using assms
proof (induction a)
  case Nil
  then show ?case by simp
next
  case (Cons c a)
  have "\<not> prefix sub (c # a @ s)"
    using Cons.prems by (cases sub) auto
  then show ?case using Cons by simp
qed

lemma contains_before_spaces:
  assumes "\<forall>c \<in> set b. isspace c" "sub \<noteq> []" "\<not> isspace (last sub)"
  shows "contains sub (s @ b) = contains sub s"
proof -
  have "contains (rev sub) (rev b @ rev s) = contains (rev sub) (rev s)"
    using assms by (intro contains_after_spaces) (simp_all add: hd_rev)
  then show ?thesis
    using contains_rev [of sub "s @ b"] contains_rev [of sub s] by simp
qed

lemma rev_split_while: "xs = rev (dropWhile P (rev xs)) @ rev (takeWhile P (rev xs))"
proof -
  have "rev (takeWhile P (rev xs) @ dropWhile P (rev xs)) = rev (rev xs)"
    by (simp only: takeWhile_dropWhile_id)
  then show ?thesis
    by (simp only: rev_append rev_rev_ident)
qed

lemma strip_parts:
  "\<exists>b. line = takeWhile isspace line @ strip line @ b \<and> (\<forall>c \<in> set b. isspace c)"
proof -
  let ?d = "dropWhile isspace line"
  have d: "?d = strip line @ rev (takeWhile isspace (rev ?d))"
    unfolding strip_def by (rule rev_split_while)
  have "line = takeWhile isspace line @ ?d" by simp
  with d have "line = takeWhile isspace line @ strip line @ rev (takeWhile isspace (rev ?d))"
    by simp
  moreover have "\<forall>c \<in> set (rev (takeWhile isspace (rev ?d))). isspace c"
    by (auto dest: set_takeWhileD)
  ultimately show ?thesis by blast
qed

lemma strip_between_spaces:
  assumes "\<forall>c \<in> set a. isspace c" "\<forall>c \<in> set b. isspace c"
    and "m \<noteq> []" "\<not> isspace (hd m)" "\<not> isspace (last m)"
  shows "strip (a @ m @ b) = m"
proof -
  have a: "\<And>x. x \<in> set a \<Longrightarrow> isspace x" and b: "\<And>x. x \<in> set (rev b) \<Longrightarrow> isspace x"
    using assms by simp_all
  have "dropWhile isspace (a @ m @ b) = dropWhile isspace (m @ b)"
    using a by (rule dropWhile_append2)
  also have "\<dots> = m @ b"
    using assms by (cases m) simp_all
  finally have 1: "dropWhile isspace (a @ m @ b) = m @ b" .
  have "dropWhile isspace (rev b @ rev m) = dropWhile isspace (rev m)"
    using b by (rule dropWhile_append2)
  also have "\<dots> = rev m"
    using assms by (cases "rev m") (auto simp: last_rev hd_rev)
  finally show ?thesis
    by (simp add: strip_def 1)
qed

lemma find_from_spaces:
  assumes "\<forall>c \<in> set a. isspace c" "k \<noteq> []" "\<not> isspace (hd k)"
  shows "find_from i k (a @ k @ r) = int (i + length a)"
  using assms
proof (induction a arbitrary: i)
  case Nil
  then show ?case by (cases k) simp_all
next
  case (Cons c a)
  have "\<not> prefix k (c # a @ k @ r)"
    using Cons.prems by (cases k) auto
  then show ?case using Cons by simp
qed

lemma slice_to_find:
  assumes "\<forall>c \<in> set a. isspace c" "k \<noteq> []" "\<not> isspace (hd k)"
  shows "slice_to (a @ k @ r) (find (a @ k @ r) k) = a"
  using find_from_spaces [OF assms, of 0 r]
  by (simp add: find_def slice_to_def)

subsection \<open>The table\<close>

lemma path_indicator_ends:
  "path_indicator \<noteq> []" "\<not> isspace (hd path_indicator)" "\<not> isspace (last path_indicator)"
  by (simp_all add: path_indicator_def u_def isspace_def)

lemma table_ok: "list_all entry_ok replacements"
  by (simp add: replacements_def entry_ok_def u_def isspace_def path_indicator_def)

lemma lookup_ok: "lookup k = Some v \<Longrightarrow> entry_ok (k, v)"
  using table_ok by (auto simp: lookup_def list_all_iff dest: map_of_SomeD)

lemma pkg_of_iff: "pkg_of l = Some (k, v) \<longleftrightarrow> strip l = k @ [58] \<and> lookup k = Some v"
proof
  assume "pkg_of l = Some (k, v)"
  then have e: "endswith_colon (strip l)" and k: "butlast (strip l) = k"
    and v: "lookup (butlast (strip l)) = Some v"
    by (auto simp: pkg_of_def Let_def split: if_splits)
  from e have "butlast (strip l) @ [58] = strip l"
    using append_butlast_last_id [of "strip l"] by (simp add: endswith_colon_def)
  then have "strip l = k @ [58]" by (simp only: k)
  moreover have "lookup k = Some v" using v by (simp only: k)
  ultimately show "strip l = k @ [58] \<and> lookup k = Some v" by (rule conjI)
next
  assume "strip l = k @ [58] \<and> lookup k = Some v"
  then show "pkg_of l = Some (k, v)"
    by (simp add: pkg_of_def endswith_colon_def)
qed

lemma pkg_of_None_iff: "pkg_of l = None \<longleftrightarrow> \<not> (\<exists>k v. strip l = k @ [58] \<and> lookup k = Some v)"
proof -
  have "pkg_of l = None \<longleftrightarrow> \<not> (\<exists>k v. pkg_of l = Some (k, v))"
    by (cases "pkg_of l") auto
  then show ?thesis by (simp only: pkg_of_iff)
qed

lemma name_line_shape:
  assumes "pkg_of l = Some (k, v)"
  shows "\<exists>b. l = takeWhile isspace l @ k @ [58] @ b \<and> (\<forall>c \<in> set b. isspace c)"
  using strip_parts [of l] assms by (auto simp: pkg_of_iff)

lemma takeWhile_spaces: "\<forall>c \<in> set (takeWhile isspace l). isspace c"
  by (auto dest: set_takeWhileD)

lemma replaced_eq:
  assumes "pkg_of l = Some (k, v)"
  shows "replaced l = takeWhile isspace l @ k @ u '': '' @ v @ [10]"
proof -
  from assms have ok: "entry_ok (k, v)" by (simp add: pkg_of_iff lookup_ok)
  obtain b where l: "l = takeWhile isspace l @ k @ ([58] @ b)"
    using name_line_shape [OF assms] by auto
  have "slice_to (takeWhile isspace l @ k @ ([58] @ b))
          (find (takeWhile isspace l @ k @ ([58] @ b)) k) = takeWhile isspace l"
    using ok by (intro slice_to_find takeWhile_spaces) (simp_all add: entry_ok_def)
  with l have "slice_to l (find l k) = takeWhile isspace l" by simp
  then show ?thesis using assms by (simp add: replaced_def version_line_def)
qed

lemma name_line_no_path:
  assumes "pkg_of l \<noteq> None"
  shows "\<not> contains path_indicator l"
proof -
  from assms obtain k v where kv: "pkg_of l = Some (k, v)" by auto
  then have ok: "entry_ok (k, v)" by (simp add: pkg_of_iff lookup_ok)
  obtain b where l: "l = takeWhile isspace l @ (k @ [58]) @ b" and b: "\<forall>c \<in> set b. isspace c"
    using name_line_shape [OF kv] by auto
  have "contains path_indicator (takeWhile isspace l @ (k @ [58]) @ b)
          = contains path_indicator ((k @ [58]) @ b)"
    by (intro contains_after_spaces takeWhile_spaces path_indicator_ends)
  also have "\<dots> = contains path_indicator (k @ [58])"
    using b by (intro contains_before_spaces path_indicator_ends)
  finally show ?thesis using l ok by (simp add: entry_ok_def)
qed

lemma replaced_no_path:
  assumes "pkg_of l \<noteq> None"
  shows "\<not> contains path_indicator (replaced l)"
proof -
  from assms obtain k v where kv: "pkg_of l = Some (k, v)" by auto
  then have ok: "entry_ok (k, v)" by (simp add: pkg_of_iff lookup_ok)
  have "contains path_indicator (takeWhile isspace l @ (k @ u '': '' @ v) @ [10])
          = contains path_indicator ((k @ u '': '' @ v) @ [10])"
    by (intro contains_after_spaces takeWhile_spaces path_indicator_ends)
  also have "\<dots> = contains path_indicator (k @ u '': '' @ v)"
    by (intro contains_before_spaces path_indicator_ends) (simp add: isspace_def)
  finally show ?thesis using ok by (simp add: replaced_eq [OF kv] entry_ok_def)
qed

lemma replaced_not_name:
  assumes "pkg_of l \<noteq> None"
  shows "pkg_of (replaced l) = None"
proof -
  from assms obtain k v where kv: "pkg_of l = Some (k, v)" by auto
  then have ok: "entry_ok (k, v)" by (simp add: pkg_of_iff lookup_ok)
  let ?m = "k @ u '': '' @ v"
  have m: "?m \<noteq> []" "hd ?m = hd k" "last ?m = last v"
    using ok by (simp_all add: entry_ok_def)
  have "strip (takeWhile isspace l @ ?m @ [10]) = ?m"
    using ok m by (intro strip_between_spaces takeWhile_spaces) (simp_all add: entry_ok_def isspace_def)
  then have "strip (replaced l) = ?m" by (simp add: replaced_eq [OF kv])
  then have "\<not> endswith_colon (strip (replaced l))"
    using ok m by (simp add: endswith_colon_def entry_ok_def)
  then show ?thesis by (simp add: pkg_of_def)
qed

subsection \<open>The loop and the recursion agree\<close>

lemma step_skip: "skip_next st \<Longrightarrow> step L st il = st\<lparr>skip_next := False\<rparr>"
  by (simp add: step_def)

lemma step_block:
  assumes "\<not> skip_next st" "Suc i < length L" "block line (L ! Suc i)"
  shows "step L st (i, line) =
    st\<lparr>new_lines := new_lines st @ [replaced line], skip_next := True, modified := True\<rparr>"
  using assms
  by (auto simp: step_def block_def pkg_of_def replaced_def Let_def split: option.splits if_splits)

lemma step_copy:
  assumes "\<not> skip_next st" "\<not> (Suc i < length L \<and> block line (L ! Suc i))"
  shows "step L st (i, line) = st\<lparr>new_lines := new_lines st @ [line]\<rparr>"
  using assms
  by (auto simp: step_def block_def pkg_of_def Let_def split: option.splits if_splits)

lemma foldl_step:
  "new_lines (foldl (step (pre @ xs)) st (enumerate (length pre) xs)) =
     new_lines st @ (if skip_next st then rewrite (tl xs) else rewrite xs) \<and>
   modified (foldl (step (pre @ xs)) st (enumerate (length pre) xs)) =
     (modified st \<or> (if skip_next st then changed (tl xs) else changed xs))"
proof (induction xs arbitrary: pre st)
  case Nil
  then show ?case by simp
next
  case (Cons x xs)
  let ?L = "pre @ x # xs"
  let ?st = "step ?L st (length pre, x)"
  have IH: "new_lines (foldl (step ?L) ?st (enumerate (Suc (length pre)) xs)) =
     new_lines ?st @ (if skip_next ?st then rewrite (tl xs) else rewrite xs) \<and>
   modified (foldl (step ?L) ?st (enumerate (Suc (length pre)) xs)) =
     (modified ?st \<or> (if skip_next ?st then changed (tl xs) else changed xs))"
    using Cons.IH [of "pre @ [x]" ?st] by simp
  show ?case
  proof (cases "skip_next st")
    case True
    then show ?thesis using IH by (simp add: step_skip)
  next
    case ns: False
    show ?thesis
    proof (cases xs)
      case Nil
      then show ?thesis using ns by (simp add: step_copy)
    next
      case (Cons n rest)
      have nth: "?L ! Suc (length pre) = n" using Cons by (simp add: nth_append)
      have len: "Suc (length pre) < length ?L" using Cons by simp
      show ?thesis
      proof (cases "block x n")
        case True
        have "?st = st\<lparr>new_lines := new_lines st @ [replaced x], skip_next := True, modified := True\<rparr>"
          using step_block [OF ns len] True nth by simp
        then show ?thesis using IH ns True Cons by simp
      next
        case False
        have "?st = st\<lparr>new_lines := new_lines st @ [x]\<rparr>"
          using step_copy [OF ns] False nth by simp
        then show ?thesis using IH ns False Cons by simp
      qed
    qed
  qed
qed

lemma scan_eq: "scan ls = (rewrite ls, changed ls)"
  using foldl_step [of "[]" ls scan_init]
  by (simp add: scan_def scan_loop_def scan_init_def)

subsection \<open>The recursion\<close>

lemma rewrite_copy:
  assumes "\<not> (ys \<noteq> [] \<and> block x (hd ys))"
  shows "rewrite (x # ys) = x # rewrite ys" "changed (x # ys) = changed ys"
  using assms by (cases ys; simp)+

lemma rewrite_block:
  assumes "block x y"
  shows "rewrite (x # y # ys) = replaced x # rewrite ys" "changed (x # y # ys)"
  using assms by simp_all

lemma rewrite_single:
  assumes "ys = [] \<or> \<not> contains path_indicator (hd ys)"
  shows "rewrite (l # ys) = l # rewrite ys" "changed (l # ys) = changed ys"
proof -
  from assms have "\<not> (ys \<noteq> [] \<and> block l (hd ys))" by (auto simp: block_def)
  then show "rewrite (l # ys) = l # rewrite ys" "changed (l # ys) = changed ys"
    by (rule rewrite_copy)+
qed

lemma rewrite_append:
  assumes "ys = [] \<or> \<not> contains path_indicator (hd ys)"
  shows "rewrite (xs @ ys) = rewrite xs @ rewrite ys \<and> changed (xs @ ys) = (changed xs \<or> changed ys)"
  using assms
proof (induction xs rule: rewrite.induct)
  case (1 l n rest)
  then show ?case by simp
qed (simp_all add: rewrite_single)

lemma rewrite_head:
  "rewrite (n # rest) \<noteq> [] \<and>
   (hd (rewrite (n # rest)) = n \<or> (pkg_of n \<noteq> None \<and> hd (rewrite (n # rest)) = replaced n))"
  by (cases rest) (simp_all add: block_def)

lemma rewrite_head_no_path:
  assumes "\<not> contains path_indicator n"
  shows "\<not> contains path_indicator (hd (rewrite (n # rest)))"
  using rewrite_head [of n rest] assms replaced_no_path [of n] by auto

lemma rewrite_idem: "rewrite (rewrite ls) = rewrite ls \<and> \<not> changed (rewrite ls)"
proof (induction ls rule: rewrite.induct)
  case (1 l n rest)
  show ?case
  proof (cases "block l n")
    case True
    then have "pkg_of (replaced l) = None" by (simp add: block_def replaced_not_name)
    then have "\<not> (rewrite rest \<noteq> [] \<and> block (replaced l) (hd (rewrite rest)))"
      by (simp add: block_def)
    from rewrite_copy [OF this] show ?thesis using True 1 by simp
  next
    case False
    have "\<not> (rewrite (n # rest) \<noteq> [] \<and> block l (hd (rewrite (n # rest))))"
      using False rewrite_head_no_path [of n rest] by (auto simp: block_def)
    from rewrite_copy [OF this] show ?thesis using False 1 by simp
  qed
qed simp_all

subsection \<open>The marks\<close>

lemma run_marks_smarks:
  "run_marks (pre @ xs) st (enumerate (length pre) xs) =
     (if skip_next st then (case xs of [] \<Rightarrow> [] | x # xs' \<Rightarrow> Consumed # smarks xs') else smarks xs)"
proof (induction xs arbitrary: pre st)
  case Nil
  then show ?case by simp
next
  case (Cons x xs)
  let ?L = "pre @ x # xs"
  let ?st = "step ?L st (length pre, x)"
  have IH: "run_marks ?L ?st (enumerate (Suc (length pre)) xs) =
     (if skip_next ?st then (case xs of [] \<Rightarrow> [] | x # xs' \<Rightarrow> Consumed # smarks xs') else smarks xs)"
    using Cons.IH [of "pre @ [x]" ?st] by simp
  show ?case
  proof (cases "skip_next st")
    case True
    then show ?thesis using IH by (simp add: step_skip mark_of_def)
  next
    case ns: False
    show ?thesis
    proof (cases xs)
      case Nil
      then show ?thesis using ns by (simp add: step_copy mark_of_def)
    next
      case (Cons n rest)
      have nth: "?L ! Suc (length pre) = n" using Cons by (simp add: nth_append)
      have len: "Suc (length pre) < length ?L" using Cons by simp
      show ?thesis
      proof (cases "block x n")
        case True
        have "?st = st\<lparr>new_lines := new_lines st @ [replaced x], skip_next := True, modified := True\<rparr>"
          using step_block [OF ns len] True nth by simp
        then show ?thesis using IH ns True Cons by (simp add: mark_of_def)
      next
        case False
        have "?st = st\<lparr>new_lines := new_lines st @ [x]\<rparr>"
          using step_copy [OF ns] False nth by simp
        then show ?thesis using IH ns False Cons by (simp add: mark_of_def)
      qed
    qed
  qed
qed

lemma marks_eq: "marks ls = smarks ls"
  using run_marks_smarks [of "[]" ls scan_init]
  by (simp add: marks_def scan_init_def)

lemma length_smarks: "length (smarks ls) = length ls"
  by (induction ls rule: smarks.induct) simp_all

lemma rewrite_emit: "rewrite ls = concat (map emit (zip ls (smarks ls)))"
  by (induction ls rule: smarks.induct) simp_all

lemma length_rewrite:
  "length (rewrite ls) + length (filter (\<lambda>m. m = Rewritten) (smarks ls)) = length ls"
  by (induction ls rule: smarks.induct) simp_all

lemma changed_iff: "changed ls \<longleftrightarrow> 0 < length (filter (\<lambda>m. m = Rewritten) (smarks ls))"
  by (induction ls rule: smarks.induct) simp_all

lemma copied_subseq:
  "subseq (map fst (filter (\<lambda>lm. snd lm = Copied) (zip ls (smarks ls)))) (rewrite ls)"
  by (induction ls rule: smarks.induct) auto

lemma smarks_nth:
  assumes "i < length ls"
  shows "(smarks ls ! i = Rewritten \<longleftrightarrow>
            Suc i < length ls \<and> block (ls ! i) (ls ! Suc i) \<and> (i = 0 \<or> smarks ls ! (i - 1) \<noteq> Rewritten))
       \<and> (smarks ls ! i = Consumed \<longleftrightarrow> 0 < i \<and> smarks ls ! (i - 1) = Rewritten)"
  using assms
proof (induction ls arbitrary: i rule: smarks.induct)
  case (1 l n rest)
  show ?case
  proof (cases "block l n")
    case True
    show ?thesis
    proof (cases i)
      case 0
      then show ?thesis using True by simp
    next
      case (Suc j)
      show ?thesis
      proof (cases j)
        case 0
        then show ?thesis using True Suc by simp
      next
        case (Suc m)
        then have "m < length rest" using 1(3) \<open>i = Suc j\<close> by simp
        from 1(1) [OF True this] show ?thesis
          using True Suc \<open>i = Suc j\<close> by (cases m) simp_all
      qed
    qed
  next
    case False
    show ?thesis
    proof (cases i)
      case 0
      then show ?thesis using False by simp
    next
      case (Suc j)
      then have "j < length (n # rest)" using 1(3) by simp
      from 1(2) [OF False this] show ?thesis
        using False Suc by (cases j) simp_all
    qed
  qed
qed simp_all

lemma smarks_copy:
  assumes "\<not> (ys \<noteq> [] \<and> block x (hd ys))"
  shows "smarks (x # ys) = Copied # smarks ys"
  using assms by (cases ys) simp_all

lemma smarks_single:
  assumes "ys = [] \<or> \<not> contains path_indicator (hd ys)"
  shows "smarks (l # ys) = Copied # smarks ys"
proof -
  from assms have "\<not> (ys \<noteq> [] \<and> block l (hd ys))" by (auto simp: block_def)
  then show ?thesis by (rule smarks_copy)
qed

lemma smarks_append:
  assumes "ys = [] \<or> \<not> contains path_indicator (hd ys)"
  shows "smarks (xs @ ys) = smarks xs @ smarks ys"
  using assms
proof (induction xs rule: rewrite.induct)
  case (1 l n rest)
  then show ?case by simp
qed (simp_all add: smarks_single)

lemma changed_iff_pair:
  "changed ls \<longleftrightarrow> (\<exists>i. Suc i < length ls \<and> block (ls ! i) (ls ! Suc i))"
proof (induction ls rule: rewrite.induct)
  case (1 l n rest)
  show ?case
  proof (cases "block l n")
    case True
    then have "Suc 0 < length (l # n # rest) \<and> block ((l # n # rest) ! 0) ((l # n # rest) ! Suc 0)"
      by simp
    then have "\<exists>i. Suc i < length (l # n # rest) \<and> block ((l # n # rest) ! i) ((l # n # rest) ! Suc i)"
      by blast
    then show ?thesis using True by simp
  next
    case False
    have "(\<exists>i. Suc i < length (l # n # rest) \<and> block ((l # n # rest) ! i) ((l # n # rest) ! Suc i))
        \<longleftrightarrow> (\<exists>j. Suc j < length (n # rest) \<and> block ((n # rest) ! j) ((n # rest) ! Suc j))"
      (is "?A \<longleftrightarrow> ?B")
    proof
      assume ?A
      then obtain i where i: "Suc i < length (l # n # rest)"
        "block ((l # n # rest) ! i) ((l # n # rest) ! Suc i)" by blast
      with False obtain j where "i = Suc j" by (cases i) auto
      with i show ?B by auto
    next
      assume ?B
      then obtain j where "Suc j < length (n # rest)" "block ((n # rest) ! j) ((n # rest) ! Suc j)"
        by blast
      then have "Suc (Suc j) < length (l # n # rest)
        \<and> block ((l # n # rest) ! Suc j) ((l # n # rest) ! Suc (Suc j))" by simp
      then show ?A by blast
    qed
    then show ?thesis using False 1 by simp
  qed
qed simp_all

lemma unchanged_rewrite: "\<not> changed ls \<Longrightarrow> rewrite ls = ls"
  by (induction ls rule: rewrite.induct) (simp_all split: if_splits)

lemma block_iff:
  "block l n \<longleftrightarrow> (\<exists>k v. strip l = k @ [58] \<and> lookup k = Some v) \<and> contains path_indicator n"
  using pkg_of_None_iff [of l] by (auto simp: block_def)

subsection \<open>Two lines of the table\<close>

lemma lookup_core: "lookup (u ''web3_universal_core'') = Some (u ''^0.1.1'')"
  by (simp add: lookup_def replacements_def u_def)

lemma lookup_abi: "lookup (u ''web3_universal_abi'') = Some (u ''^0.1.1'')"
  by (simp add: lookup_def replacements_def u_def)

lemma u_append: "u (a @ b) = u a @ u b"
  by (simp add: u_def)

lemma spaces_u2: "\<forall>c \<in> set (u ''  ''). isspace c"
  by (simp add: u_def isspace_def)

lemma eol_spaces: "e = [] \<or> e = [10] \<Longrightarrow> \<forall>c \<in> set e. isspace c"
  by (auto simp: isspace_def)

lemma strip_core:
  assumes "e = [] \<or> e = [10]"
  shows "strip (u ''  web3_universal_core:'' @ e) = u ''web3_universal_core'' @ [58]"
proof -
  have "strip (u ''  '' @ (u ''web3_universal_core'' @ [58]) @ e) = u ''web3_universal_core'' @ [58]"
    using spaces_u2 eol_spaces [OF assms]
    by (rule strip_between_spaces) (simp_all add: u_def isspace_def)
  moreover have "u ''  web3_universal_core:'' = u ''  '' @ u ''web3_universal_core'' @ [58]"
    by (simp add: u_def)
  ultimately show ?thesis by simp
qed

lemma strip_abi:
  assumes "e = [] \<or> e = [10]"
  shows "strip (u ''  web3_universal_abi:'' @ e) = u ''web3_universal_abi'' @ [58]"
proof -
  have "strip (u ''  '' @ (u ''web3_universal_abi'' @ [58]) @ e) = u ''web3_universal_abi'' @ [58]"
    using spaces_u2 eol_spaces [OF assms]
    by (rule strip_between_spaces) (simp_all add: u_def isspace_def)
  moreover have "u ''  web3_universal_abi:'' = u ''  '' @ u ''web3_universal_abi'' @ [58]"
    by (simp add: u_def)
  ultimately show ?thesis by simp
qed

lemma takeWhile_two_spaces:
  "takeWhile isspace (u ''  web3_universal_'' @ r) = u ''  ''"
  by (simp add: u_def isspace_def)

lemma replaced_core:
  assumes "e = [] \<or> e = [10]"
  shows "replaced (u ''  web3_universal_core:'' @ e) = u ''  web3_universal_core: ^0.1.1'' @ [10]"
proof -
  have p: "pkg_of (u ''  web3_universal_core:'' @ e) = Some (u ''web3_universal_core'', u ''^0.1.1'')"
    by (simp add: pkg_of_iff strip_core [OF assms] lookup_core)
  have "u ''  web3_universal_core:'' @ e = u ''  web3_universal_'' @ (u ''core:'' @ e)"
    by (simp add: u_def)
  then have "takeWhile isspace (u ''  web3_universal_core:'' @ e) = u ''  ''"
    by (simp only: takeWhile_two_spaces)
  then show ?thesis
    by (simp add: replaced_eq [OF p]) (simp add: u_def)
qed

lemma replaced_abi:
  assumes "e = [] \<or> e = [10]"
  shows "replaced (u ''  web3_universal_abi:'' @ e) = u ''  web3_universal_abi: ^0.1.1'' @ [10]"
proof -
  have p: "pkg_of (u ''  web3_universal_abi:'' @ e) = Some (u ''web3_universal_abi'', u ''^0.1.1'')"
    by (simp add: pkg_of_iff strip_abi [OF assms] lookup_abi)
  have "u ''  web3_universal_abi:'' @ e = u ''  web3_universal_'' @ (u ''abi:'' @ e)"
    by (simp add: u_def)
  then have "takeWhile isspace (u ''  web3_universal_abi:'' @ e) = u ''  ''"
    by (simp only: takeWhile_two_spaces)
  then show ?thesis
    by (simp add: replaced_eq [OF p]) (simp add: u_def)
qed

lemma path_core: "contains path_indicator (u ''    path: ../core'' @ e)"
  by (simp add: path_indicator_def u_def)

lemma path_abi: "contains path_indicator (u ''    path: ../abi'' @ e)"
  by (simp add: path_indicator_def u_def)

lemma block_core:
  assumes "e = [] \<or> e = [10]"
  shows "block (u ''  web3_universal_core:'' @ e) (u ''    path: ../core'' @ e')"
  using strip_core [OF assms] lookup_core path_core by (auto simp: block_iff)

lemma block_abi:
  assumes "e = [] \<or> e = [10]"
  shows "block (u ''  web3_universal_abi:'' @ e) (u ''    path: ../abi'' @ e')"
  using strip_abi [OF assms] lookup_abi path_abi by (auto simp: block_iff)

lemma core_no_path: "e = [] \<or> e = [10] \<Longrightarrow> \<not> contains path_indicator (u ''  web3_universal_core:'' @ e)"
  using name_line_no_path [of "u ''  web3_universal_core:'' @ e"] strip_core [of e] lookup_core
  by (simp add: pkg_of_None_iff)

lemma abi_no_path: "e = [] \<or> e = [10] \<Longrightarrow> \<not> contains path_indicator (u ''  web3_universal_abi:'' @ e)"
  using name_line_no_path [of "u ''  web3_universal_abi:'' @ e"] strip_abi [of e] lookup_abi
  by (simp add: pkg_of_None_iff)

section \<open>The claims about the scan\<close>

text \<open>
  C1. Wherever the line \<open>  web3_universal_core:\<close> is followed by the line
  \<open>    path: ../core\<close> (each with or without its newline), the scan puts the single line
  \<open>  web3_universal_core: ^0.1.1\<close> in their place, with the two spaces of the name line, between
  the scan of what precedes and the scan of what follows, and sets the flag. The output has
  one line fewer than the input for every rewritten block: exactly one fewer when this pair
  is the only block rewritten.
\<close>

theorem C1_core_block:
  assumes "e1 = [] \<or> e1 = [10]" and "e2 = [] \<or> e2 = [10]"
  shows "fst (scan (pre @ (u ''  web3_universal_core:'' @ e1) # (u ''    path: ../core'' @ e2) # post))
           = fst (scan pre) @ (u ''  web3_universal_core: ^0.1.1'' @ [10]) # fst (scan post)
       \<and> snd (scan (pre @ (u ''  web3_universal_core:'' @ e1) # (u ''    path: ../core'' @ e2) # post))
       \<and> length (fst (scan (pre @ (u ''  web3_universal_core:'' @ e1) # (u ''    path: ../core'' @ e2) # post)))
           + rewrite_count (pre @ (u ''  web3_universal_core:'' @ e1) # (u ''    path: ../core'' @ e2) # post)
           = length (pre @ (u ''  web3_universal_core:'' @ e1) # (u ''    path: ../core'' @ e2) # post)
       \<and> rewrite_count (pre @ (u ''  web3_universal_core:'' @ e1) # (u ''    path: ../core'' @ e2) # post)
           = rewrite_count pre + 1 + rewrite_count post"
proof -
  let ?n = "u ''  web3_universal_core:'' @ e1" and ?p = "u ''    path: ../core'' @ e2"
  have np: "\<not> contains path_indicator ?n" by (rule core_no_path [OF assms(1)])
  have b: "block ?n ?p" by (rule block_core [OF assms(1)])
  have r: "replaced ?n = u ''  web3_universal_core: ^0.1.1'' @ [10]"
    by (rule replaced_core [OF assms(1)])
  have 1: "rewrite (pre @ ?n # ?p # post) = rewrite pre @ rewrite (?n # ?p # post)"
    and 2: "changed (pre @ ?n # ?p # post) = (changed pre \<or> changed (?n # ?p # post))"
    and 3: "smarks (pre @ ?n # ?p # post) = smarks pre @ smarks (?n # ?p # post)"
    using rewrite_append [of "?n # ?p # post" pre] smarks_append [of "?n # ?p # post" pre] np
    by simp_all
  have 4: "rewrite (?n # ?p # post) = replaced ?n # rewrite post"
    and 5: "changed (?n # ?p # post)"
    and 6: "smarks (?n # ?p # post) = Rewritten # Consumed # smarks post"
    using b by simp_all
  have "length (rewrite (pre @ ?n # ?p # post))
          + length (filter (\<lambda>m. m = Rewritten) (smarks (pre @ ?n # ?p # post)))
        = length (pre @ ?n # ?p # post)"
    by (rule length_rewrite)
  then show ?thesis
    unfolding scan_eq rewrite_count_def marks_eq 1 2 3 4 6 r
    using 5 by simp
qed

theorem C1_core_block_witness:
  "fst (scan [u ''dependencies:'' @ [10], u ''  web3_universal_core:'' @ [10],
              u ''    path: ../core'' @ [10], u ''  http: ^1.0.0'' @ [10]])
     = [u ''dependencies:'' @ [10], u ''  web3_universal_core: ^0.1.1'' @ [10],
        u ''  http: ^1.0.0'' @ [10]]"
  using C1_core_block [of "[10]" "[10]" "[u ''dependencies:'' @ [10]]" "[u ''  http: ^1.0.0'' @ [10]]"]
  by (simp add: scan_eq)

theorem C1_counterexample:
  "length (fst (scan [u ''  web3_universal_core:'' @ [10], u ''    path: ../core'' @ [10],
                      u ''  web3_universal_core:'' @ [10], u ''    path: ../core'' @ [10]]))
     \<noteq> length [u ''  web3_universal_core:'' @ [10], u ''    path: ../core'' @ [10],
                u ''  web3_universal_core:'' @ [10], u ''    path: ../core'' @ [10]] - 1"
proof -
  have "block (u ''  web3_universal_core:'' @ [10]) (u ''    path: ../core'' @ [10])"
    by (rule block_core) simp
  then show ?thesis by (simp add: scan_eq)
qed

text \<open>
  C3. Scanning the output of a scan changes nothing: the flag stays unset and the lines
  are returned as they are.
\<close>

theorem C3_idempotent: "scan (fst (scan ls)) = (fst (scan ls), False)"
  using rewrite_idem [of ls] by (simp add: scan_eq)

theorem C3_idempotent_witness:
  "scan (fst (scan [u ''  web3_universal_core:'' @ [10], u ''    path: ../core'' @ [10]]))
     = (fst (scan [u ''  web3_universal_core:'' @ [10], u ''    path: ../core'' @ [10]]), False)"
  by (rule C3_idempotent)

text \<open>
  C4. The output is the input read in order, every line contributing what its iteration
  did: a copied line itself, a rewritten name line its version line, a consumed path line
  nothing. So the lines outside the blocks are in the output verbatim and in their order.
  A line is rewritten exactly when it passes the test of a block and the line before it
  was not rewritten, and consumed exactly when the line before it was rewritten.
\<close>

theorem C4_copied_verbatim_in_order:
  "fst (scan ls) = concat (map emit (zip ls (marks ls)))
   \<and> length (marks ls) = length ls
   \<and> subseq (copied_lines ls) (fst (scan ls))
   \<and> (\<forall>i < length ls.
        (marks ls ! i = Rewritten \<longleftrightarrow>
           Suc i < length ls \<and> block (ls ! i) (ls ! Suc i)
           \<and> (i = 0 \<or> marks ls ! (i - 1) \<noteq> Rewritten))
      \<and> (marks ls ! i = Consumed \<longleftrightarrow> 0 < i \<and> marks ls ! (i - 1) = Rewritten))"
proof -
  have "fst (scan ls) = concat (map emit (zip ls (marks ls)))"
    using rewrite_emit [of ls] by (simp add: scan_eq marks_eq)
  moreover have "length (marks ls) = length ls"
    by (simp only: marks_eq length_smarks)
  moreover have "subseq (copied_lines ls) (fst (scan ls))"
    using copied_subseq [of ls] by (simp add: scan_eq marks_eq copied_lines_def)
  moreover have "\<forall>i < length ls.
        (marks ls ! i = Rewritten \<longleftrightarrow>
           Suc i < length ls \<and> block (ls ! i) (ls ! Suc i)
           \<and> (i = 0 \<or> marks ls ! (i - 1) \<noteq> Rewritten))
      \<and> (marks ls ! i = Consumed \<longleftrightarrow> 0 < i \<and> marks ls ! (i - 1) = Rewritten)"
    unfolding marks_eq by (intro allI impI) (rule smarks_nth)
  ultimately show ?thesis by (intro conjI)
qed

theorem C4_copied_verbatim_in_order_witness:
  "(1::nat) < length [u ''name: app'' @ [10], u ''  web3_universal_core:'' @ [10],
                     u ''    path: ../core'' @ [10]]
   \<and> (marks [u ''name: app'' @ [10], u ''  web3_universal_core:'' @ [10],
             u ''    path: ../core'' @ [10]] ! 1 = Consumed
        \<longleftrightarrow> 0 < (1::nat) \<and> marks [u ''name: app'' @ [10], u ''  web3_universal_core:'' @ [10],
             u ''    path: ../core'' @ [10]] ! (1 - 1) = Rewritten)"
proof -
  let ?L = "[u ''name: app'' @ [10], u ''  web3_universal_core:'' @ [10], u ''    path: ../core'' @ [10]]"
  have h: "(1::nat) < length ?L" by simp
  have "\<forall>i < length ?L.
        (marks ?L ! i = Rewritten \<longleftrightarrow>
           Suc i < length ?L \<and> block (?L ! i) (?L ! Suc i)
           \<and> (i = 0 \<or> marks ?L ! (i - 1) \<noteq> Rewritten))
      \<and> (marks ?L ! i = Consumed \<longleftrightarrow> 0 < i \<and> marks ?L ! (i - 1) = Rewritten)"
    using C4_copied_verbatim_in_order [of ?L] by (elim conjE)
  from this [rule_format, OF h] h show ?thesis by (elim conjE) (rule conjI)
qed

lemma http_no_path: "\<not> contains path_indicator (u ''  http: ^1.0.0'' @ [10])"
  by (simp add: path_indicator_def u_def)

text \<open>
  C5. When a name line of the table is followed by a line without \<open>path:\<close>,
  the name line is copied unchanged and the scan goes on with the following line, which is
  treated on its own: it is copied unchanged too unless it is itself a name line of the
  table followed by a line with \<open>path:\<close>.
\<close>

theorem C5_no_path_no_rewrite:
  assumes "strip l = k @ [58]" and "lookup k = Some v" and "\<not> contains path_indicator n"
  shows "fst (scan (pre @ l # n # post)) = fst (scan pre) @ l # fst (scan (n # post))
       \<and> marks (pre @ l # n # post) ! length pre = Copied
       \<and> (\<not> ((\<exists>k' v'. strip n = k' @ [58] \<and> lookup k' = Some v')
               \<and> post \<noteq> [] \<and> contains path_indicator (hd post))
            \<longrightarrow> fst (scan (pre @ l # n # post)) = fst (scan pre) @ l # n # fst (scan post))"
proof -
  have "pkg_of l \<noteq> None" using assms(1,2) by (simp add: pkg_of_None_iff)
  then have np: "\<not> contains path_indicator l" by (rule name_line_no_path)
  have nb: "\<not> block l n" using assms(3) by (simp add: block_def)
  have 1: "rewrite (pre @ l # n # post) = rewrite pre @ rewrite (l # n # post)"
    and 2: "smarks (pre @ l # n # post) = smarks pre @ smarks (l # n # post)"
    using rewrite_append [of "l # n # post" pre] smarks_append [of "l # n # post" pre] np
    by simp_all
  have 3: "rewrite (l # n # post) = l # rewrite (n # post)"
    and 4: "smarks (l # n # post) = Copied # smarks (n # post)"
    using nb by simp_all
  have 5: "(smarks pre @ Copied # smarks (n # post)) ! length pre = Copied"
    using nth_append_length [of "smarks pre" Copied "smarks (n # post)"]
    by (simp only: length_smarks)
  have 6: "rewrite (n # post) = n # rewrite post"
    if "\<not> ((\<exists>k' v'. strip n = k' @ [58] \<and> lookup k' = Some v')
               \<and> post \<noteq> [] \<and> contains path_indicator (hd post))"
  proof -
    from that have "\<not> (post \<noteq> [] \<and> block n (hd post))" by (auto simp: block_iff)
    then show ?thesis by (rule rewrite_copy)
  qed
  show ?thesis
    unfolding scan_eq marks_eq fst_conv 1 2 3 4 using 5 6 by simp
qed

theorem C5_no_path_no_rewrite_witness:
  "strip (u ''  web3_universal_core:'' @ [10]) = u ''web3_universal_core'' @ [58]
   \<and> lookup (u ''web3_universal_core'') = Some (u ''^0.1.1'')
   \<and> \<not> contains path_indicator (u ''  http: ^1.0.0'' @ [10])
   \<and> fst (scan [u ''  web3_universal_core:'' @ [10], u ''  http: ^1.0.0'' @ [10]])
       = [u ''  web3_universal_core:'' @ [10], u ''  http: ^1.0.0'' @ [10]]"
proof -
  have s: "strip (u ''  web3_universal_core:'' @ [10]) = u ''web3_universal_core'' @ [58]"
    by (rule strip_core) simp
  from C5_no_path_no_rewrite [OF s lookup_core http_no_path, of "[]" "[]"]
  have "fst (scan [u ''  web3_universal_core:'' @ [10], u ''  http: ^1.0.0'' @ [10]])
       = [u ''  web3_universal_core:'' @ [10], u ''  http: ^1.0.0'' @ [10]]"
    by (simp add: scan_eq)
  with s lookup_core http_no_path show ?thesis by (intro conjI)
qed

theorem C5_counterexample:
  "strip (u ''  web3_universal_core:'' @ [10]) = u ''web3_universal_core'' @ [58]
   \<and> lookup (u ''web3_universal_core'') = Some (u ''^0.1.1'')
   \<and> \<not> contains path_indicator (u ''  web3_universal_abi:'' @ [10])
   \<and> fst (scan [u ''  web3_universal_core:'' @ [10], u ''  web3_universal_abi:'' @ [10],
                 u ''    path: ../abi'' @ [10]])
       = [u ''  web3_universal_core:'' @ [10], u ''  web3_universal_abi: ^0.1.1'' @ [10]]
   \<and> u ''  web3_universal_abi:'' @ [10]
       \<notin> set (fst (scan [u ''  web3_universal_core:'' @ [10], u ''  web3_universal_abi:'' @ [10],
                          u ''    path: ../abi'' @ [10]]))"
proof -
  have e: "[10] = [] \<or> [10] = [10::nat]" by simp
  have s: "strip (u ''  web3_universal_core:'' @ [10]) = u ''web3_universal_core'' @ [58]"
    by (rule strip_core [OF e])
  have np: "\<not> contains path_indicator (u ''  web3_universal_abi:'' @ [10])"
    by (rule abi_no_path [OF e])
  then have nb: "\<not> block (u ''  web3_universal_core:'' @ [10]) (u ''  web3_universal_abi:'' @ [10])"
    by (simp add: block_def)
  have b: "block (u ''  web3_universal_abi:'' @ [10]) (u ''    path: ../abi'' @ [10])"
    by (rule block_abi [OF e])
  have r: "fst (scan [u ''  web3_universal_core:'' @ [10], u ''  web3_universal_abi:'' @ [10],
                 u ''    path: ../abi'' @ [10]])
       = [u ''  web3_universal_core:'' @ [10], u ''  web3_universal_abi: ^0.1.1'' @ [10]]"
    using nb b by (simp add: scan_eq replaced_abi [OF e])
  have d: "u ''  web3_universal_abi:'' @ [10] \<noteq> u ''  web3_universal_core:'' @ [10]"
    "u ''  web3_universal_abi:'' @ [10] \<noteq> u ''  web3_universal_abi: ^0.1.1'' @ [10]"
    by (simp_all add: u_def)
  have "u ''  web3_universal_abi:'' @ [10]
       \<notin> set [u ''  web3_universal_core:'' @ [10], u ''  web3_universal_abi: ^0.1.1'' @ [10]]"
    using d by simp
  with s lookup_core np r show ?thesis by (simp only: simp_thms)
qed

text \<open>
  C6. A name line of the table that is the last line is copied unchanged; it is not
  rewritten, and the flag is what the lines before it made it.
\<close>

theorem C6_last_line:
  assumes "strip l = k @ [58]" and "lookup k = Some v"
  shows "scan (pre @ [l]) = (fst (scan pre) @ [l], snd (scan pre))
       \<and> marks (pre @ [l]) ! length pre = Copied"
proof -
  have "pkg_of l \<noteq> None" using assms by (simp add: pkg_of_None_iff)
  then have np: "\<not> contains path_indicator l" by (rule name_line_no_path)
  have 1: "rewrite (pre @ [l]) = rewrite pre @ [l]"
    and 2: "changed (pre @ [l]) = changed pre"
    and 3: "smarks (pre @ [l]) = smarks pre @ [Copied]"
    using rewrite_append [of "[l]" pre] smarks_append [of "[l]" pre] np by simp_all
  have "(smarks pre @ [Copied]) ! length pre = Copied"
    using nth_append_length [of "smarks pre" Copied "[]"] by (simp only: length_smarks)
  then show ?thesis
    unfolding scan_eq marks_eq 1 2 3 by simp
qed

theorem C6_last_line_witness:
  "strip (u ''  web3_universal_core:'' @ []) = u ''web3_universal_core'' @ [58]
   \<and> lookup (u ''web3_universal_core'') = Some (u ''^0.1.1'')
   \<and> scan [u ''dependencies:'' @ [10], u ''  web3_universal_core:'' @ []]
       = ([u ''dependencies:'' @ [10], u ''  web3_universal_core:'' @ []], False)"
proof -
  have s: "strip (u ''  web3_universal_core:'' @ []) = u ''web3_universal_core'' @ [58]"
    by (rule strip_core) simp
  from C6_last_line [OF s lookup_core, of "[u ''dependencies:'' @ [10]]"]
  have "scan [u ''dependencies:'' @ [10], u ''  web3_universal_core:'' @ []]
       = ([u ''dependencies:'' @ [10], u ''  web3_universal_core:'' @ []], False)"
    by (simp add: scan_eq)
  with s lookup_core show ?thesis by (intro conjI)
qed

section \<open>Properties of the codec\<close>

lemma step_64: "(q::nat) div 64 * (64 * k) + q mod 64 * k = q * k"
proof -
  have "q div 64 * (64 * k) + q mod 64 * k = (q div 64 * 64 + q mod 64) * k"
    by (simp only: add_mult_distrib mult.assoc)
  also have "\<dots> = q * k"
    by (simp only: div_mult_mod_eq)
  finally show ?thesis .
qed

lemma split_4096: "(c::nat) div 4096 * 4096 + c div 64 mod 64 * 64 + c mod 64 = c"
proof -
  have "c div 4096 = c div 64 div 64"
    by (simp add: div_mult2_eq [symmetric])
  then have "c div 4096 * 4096 + c div 64 mod 64 * 64 = c div 64 * 64"
    using step_64 [of "c div 64" 64] by simp
  then show ?thesis by simp
qed

lemma split_262144:
  "(c::nat) div 262144 * 262144 + c div 4096 mod 64 * 4096 + c div 64 mod 64 * 64 + c mod 64 = c"
proof -
  have "c div 262144 = c div 4096 div 64"
    by (simp add: div_mult2_eq [symmetric])
  then have "c div 262144 * 262144 + c div 4096 mod 64 * 4096 = c div 4096 * 4096"
    using step_64 [of "c div 4096" 4096] by simp
  then have "c div 262144 * 262144 + c div 4096 mod 64 * 4096 + c div 64 mod 64 * 64 + c mod 64
                  = c div 4096 * 4096 + c div 64 mod 64 * 64 + c mod 64"
    by simp
  then show ?thesis by (simp only: split_4096)
qed

lemma utf8_decode_char:
  assumes "scalar c"
  shows "utf8_decode (utf8_char c @ xs) = map_option (Cons c) (utf8_decode xs)"
proof -
  consider "c < 128" | "128 \<le> c" "c < 2048" | "2048 \<le> c" "c < 65536"
    | "65536 \<le> c" "c < 1114112"
    using assms by (auto simp: scalar_def) linarith+
  then show ?thesis
  proof cases
    case 1
    then show ?thesis by (simp add: utf8_char_def)
  next
    case 2
    then have "c div 64 < 32" by simp
    then show ?thesis
      using 2 by (simp add: utf8_char_def cont_def)
  next
    case 3
    have a: "c div 4096 < 16" using 3 by simp
    show ?thesis
      using 3 a assms by (simp add: utf8_char_def cont_def split_4096)
  next
    case 4
    have a: "c div 262144 < 8" using 4 by simp
    show ?thesis
      using 4 a by (simp add: utf8_char_def cont_def split_262144)
  qed
qed

lemma utf8_Cons: "utf8 (c # s) = utf8_char c @ utf8 s"
  by (simp add: utf8_def)

lemma utf8_append: "utf8 (s @ t) = utf8 s @ utf8 t"
  by (simp add: utf8_def)

lemma utf8_decode_utf8: "list_all scalar s \<Longrightarrow> utf8_decode (utf8 s) = Some s"
proof (induction s)
  case Nil
  then show ?case by (simp add: utf8_def)
next
  case (Cons c s)
  then have "utf8_decode (utf8_char c @ utf8 s) = map_option (Cons c) (utf8_decode (utf8 s))"
    by (intro utf8_decode_char) simp
  then show ?case using Cons by (simp add: utf8_Cons)
qed

lemma utf8_decode_scalar: "utf8_decode bs = Some s \<Longrightarrow> list_all scalar s"
proof (induction bs arbitrary: s rule: utf8_decode.induct)
  case 1
  then show ?case by simp
next
  case (2 b bs)
  consider "b < 128" | "192 \<le> b" "b < 224" | "224 \<le> b" "b < 240" | "240 \<le> b" "b < 248"
    using "2.prems" by (cases "b < 128"; cases "b < 192"; cases "b < 224"; cases "b < 240";
      cases "b < 248") simp_all
  then show ?case
  proof cases
    case 1
    then obtain t where "utf8_decode bs = Some t" "s = b # t"
      using "2.prems" by auto
    then show ?thesis using "2.IH"(1) [OF 1] 1 by (simp add: scalar_def)
  next
    case 2
    then obtain b1 r where bs: "bs = Byte b1 # r"
      using "2.prems" by (cases bs; cases "hd bs") auto
    define c where "c = (b - 192) * 64 + (b1 - 128)"
    have ok: "cont b1 \<and> 128 \<le> c"
      using "2.prems" 2 bs unfolding c_def by (simp add: Let_def split: if_splits)
    then obtain t where t: "utf8_decode r = Some t" "s = c # t"
      using "2.prems" 2 bs unfolding c_def by (auto simp: Let_def)
    have "c < 2048" using 2 ok unfolding c_def cont_def by arith
    then have "scalar c" by (simp add: scalar_def)
    moreover have "list_all scalar t"
      using "2.IH"(2) [of "Byte b1" r b1 c t] 2 bs ok t(1) unfolding c_def by simp
    ultimately show ?thesis using t by simp
  next
    case 3
    then obtain b1 b2 r where bs: "bs = Byte b1 # Byte b2 # r"
      using "2.prems" by (auto split: list.splits byte.splits)
    define c where "c = (b - 224) * 4096 + (b1 - 128) * 64 + (b2 - 128)"
    have ok: "cont b1 \<and> cont b2 \<and> 2048 \<le> c \<and> scalar c"
      using "2.prems" 3 bs unfolding c_def by (simp add: Let_def split: if_splits)
    then obtain t where t: "utf8_decode r = Some t" "s = c # t"
      using "2.prems" 3 bs unfolding c_def by (auto simp: Let_def)
    have "list_all scalar t"
      using "2.IH"(3) [of "Byte b1" "Byte b2 # r" b1 "Byte b2" r b2 c t] 3 bs ok t(1)
      unfolding c_def by simp
    then show ?thesis using ok t by simp
  next
    case 4
    then obtain b1 b2 b3 r where bs: "bs = Byte b1 # Byte b2 # Byte b3 # r"
      using "2.prems" by (auto split: list.splits byte.splits)
    define c where "c = (b - 240) * 262144 + (b1 - 128) * 4096 + (b2 - 128) * 64 + (b3 - 128)"
    have ok: "cont b1 \<and> cont b2 \<and> cont b3 \<and> 65536 \<le> c \<and> c < 1114112"
      using "2.prems" 4 bs unfolding c_def by (simp add: Let_def split: if_splits)
    then obtain t where t: "utf8_decode r = Some t" "s = c # t"
      using "2.prems" 4 bs unfolding c_def by (auto simp: Let_def)
    have "list_all scalar t"
      using "2.IH"(4) [of "Byte b1" "Byte b2 # Byte b3 # r" b1 "Byte b2" "Byte b3 # r" b2
                          "Byte b3" r b3 c t] 4 bs ok t(1)
      unfolding c_def by simp
    moreover have "scalar c" using ok by (simp add: scalar_def)
    ultimately show ?thesis using t by simp
  qed
qed

lemma utf8_char_cut:
  assumes "k < length (utf8_char c)" "utf8_decode (take k (utf8_char c)) = Some t"
  shows "k = 0"
proof (rule ccontr)
  assume "k \<noteq> 0"
  then consider "k = 1" | "k = 2" | "k = 3" | "4 \<le> k" by linarith
  then show False
  proof cases
    case 1
    then show ?thesis using assms by (simp add: utf8_char_def split: if_splits)
  next
    case 2
    then have "take k (utf8_char c) = take (Suc (Suc 0)) (utf8_char c)"
      by (simp add: numeral_2_eq_2)
    then show ?thesis using assms 2 by (simp add: utf8_char_def split: if_splits)
  next
    case 3
    then have "take k (utf8_char c) = take (Suc (Suc (Suc 0))) (utf8_char c)"
      by (simp add: numeral_3_eq_3)
    then show ?thesis using assms 3 by (simp add: utf8_char_def split: if_splits)
  next
    case 4
    then show ?thesis using assms(1) by (simp add: utf8_char_def split: if_splits)
  qed
qed

lemma utf8_decode_prefix:
  assumes "list_all scalar n" "utf8_decode (take k (utf8 n)) = Some t"
  shows "\<exists>j. t = take j n"
  using assms
proof (induction n arbitrary: k t)
  case Nil
  then show ?case by (simp add: utf8_def)
next
  case (Cons c n)
  show ?case
  proof (cases "k < length (utf8_char c)")
    case True
    then have tk: "take k (utf8 (c # n)) = take k (utf8_char c)" by (simp add: utf8_Cons)
    with Cons.prems(2) have d: "utf8_decode (take k (utf8_char c)) = Some t" by simp
    from utf8_char_cut [OF True d] have "k = 0" .
    with d have "t = take 0 (c # n)" by simp
    then show ?thesis by blast
  next
    case False
    then have "take k (utf8 (c # n)) = utf8_char c @ take (k - length (utf8_char c)) (utf8 n)"
      by (simp add: utf8_Cons)
    moreover have "scalar c" using Cons.prems(1) by simp
    ultimately have "map_option (Cons c) (utf8_decode (take (k - length (utf8_char c)) (utf8 n))) = Some t"
      using Cons.prems(2) by (simp add: utf8_decode_char)
    then obtain t' where t': "utf8_decode (take (k - length (utf8_char c)) (utf8 n)) = Some t'"
      "t = c # t'" by auto
    from Cons.IH [OF _ t'(1)] Cons.prems(1) obtain j where "t' = take j n" by auto
    with t'(2) have "t = take (Suc j) (c # n)" by simp
    then show ?thesis by blast
  qed
qed

lemma utf8_ascii: "list_all (\<lambda>c. c < 128) s \<Longrightarrow> utf8 s = map Byte s"
  by (induction s) (simp_all add: utf8_def utf8_char_def)

section \<open>Reading lines\<close>

lemma universal_newlines_no_cr: "13 \<notin> set (universal_newlines t)"
  by (induction t rule: universal_newlines.induct) simp_all

lemma universal_newlines_id: "13 \<notin> set t \<Longrightarrow> universal_newlines t = t"
  by (induction t rule: universal_newlines.induct) simp_all

lemma concat_split_lines: "concat (split_lines cur cs) = cur @ cs"
  by (induction cs arbitrary: cur) simp_all

lemma concat_readlines: "concat (readlines t) = universal_newlines t"
  by (simp add: readlines_def concat_split_lines)

lemma nl_terminated_Cons:
  "x \<noteq> [] \<Longrightarrow> last x = 10 \<Longrightarrow> nl_terminated ys \<Longrightarrow> nl_terminated (x # ys)"
  by (cases ys) simp_all

lemma nl_terminated_split_lines: "nl_terminated (split_lines cur cs)"
  by (induction cs arbitrary: cur) (simp_all add: nl_terminated_Cons)

lemma nl_terminated_readlines: "nl_terminated (readlines t)"
  by (simp add: readlines_def nl_terminated_split_lines)

lemma split_lines_line:
  "10 \<notin> set l \<Longrightarrow> split_lines cur (l @ 10 # rest) = (cur @ l @ [10]) # split_lines [] rest"
  by (induction l arbitrary: cur) simp_all

lemma readlines_two:
  assumes "10 \<notin> set a" "13 \<notin> set a" "10 \<notin> set b" "13 \<notin> set b"
  shows "readlines (a @ 10 # b @ [10]) = [a @ [10], b @ [10]]"
proof -
  have "13 \<notin> set (a @ 10 # b @ [10])" using assms by simp
  then have "universal_newlines (a @ 10 # b @ [10]) = a @ 10 # b @ [10]"
    by (rule universal_newlines_id)
  moreover have "split_lines [] (a @ 10 # b @ [10]) = ([] @ a @ [10]) # split_lines [] (b @ [10])"
    using assms(1) by (rule split_lines_line)
  moreover have "split_lines [] (b @ 10 # []) = ([] @ b @ [10]) # split_lines [] []"
    using assms(3) by (rule split_lines_line)
  ultimately show ?thesis by (simp add: readlines_def)
qed

subsection \<open>A rewritten text differs from the text read\<close>

lemma replaced_no_cr:
  assumes "pkg_of l \<noteq> None" "13 \<notin> set l"
  shows "13 \<notin> set (replaced l)"
proof -
  from assms obtain k v where kv: "pkg_of l = Some (k, v)" by auto
  then have ok: "entry_ok (k, v)" by (simp add: pkg_of_iff lookup_ok)
  have "13 \<notin> set (takeWhile isspace l)"
    using assms(2) by (auto dest: set_takeWhileD)
  then show ?thesis
    using ok by (simp add: replaced_eq [OF kv] entry_ok_def u_def)
qed

lemma rewrite_no_cr: "13 \<notin> set (concat ls) \<Longrightarrow> 13 \<notin> set (concat (rewrite ls))"
proof (induction ls rule: rewrite.induct)
  case (1 l n rest)
  have l: "13 \<notin> set l" and n: "13 \<notin> set n" and rest: "13 \<notin> set (concat rest)"
    using 1(3) by simp_all
  show ?case
  proof (cases "block l n")
    case True
    have "13 \<notin> set (replaced l)"
      using True l by (intro replaced_no_cr) (simp_all add: block_def)
    moreover have "13 \<notin> set (concat (rewrite rest))"
      using True rest by (rule 1(1))
    moreover have "concat (rewrite (l # n # rest)) = replaced l @ concat (rewrite rest)"
      using True by simp
    ultimately show ?thesis
      by (metis Un_iff set_append)
  next
    case False
    have "13 \<notin> set (concat (n # rest))"
      using n rest unfolding concat.simps set_append by blast
    with False have "13 \<notin> set (concat (rewrite (n # rest)))" by (rule 1(2))
    moreover have "concat (rewrite (l # n # rest)) = l @ concat (rewrite (n # rest))"
      using False by simp
    ultimately show ?thesis
      using l by (metis Un_iff set_append)
  qed
qed simp_all

lemma block_differs:
  assumes "block l n" "l \<noteq> []" "last l = 10"
  shows "replaced l @ x \<noteq> l @ y"
proof
  assume eq: "replaced l @ x = l @ y"
  from assms(1) obtain k v where kv: "pkg_of l = Some (k, v)" by (auto simp: block_def)
  then have ok: "entry_ok (k, v)" by (simp add: pkg_of_iff lookup_ok)
  define a where "a = takeWhile isspace l"
  obtain b where l: "l = a @ k @ [58] @ b" and b: "\<forall>c \<in> set b. isspace c"
    using name_line_shape [OF kv] unfolding a_def by auto
  have r: "replaced l = a @ k @ [58, 32] @ v @ [10]"
    unfolding a_def by (simp add: replaced_eq [OF kv] u_def)
  have "(a @ k @ [58, 32] @ v @ [10]) @ x = l @ y"
    using eq by (simp only: r)
  then have "(a @ k @ [58, 32] @ v @ [10]) @ x = (a @ k @ [58] @ b) @ y"
    by (subst l [symmetric])
  then have e: "32 # v @ 10 # x = b @ y" by simp
  have "last (a @ k @ [58] @ b) = 10" using assms(3) l by simp
  then have bne: "b \<noteq> []" by (cases b) simp_all
  then obtain c b' where b': "b = c # b'" by (cases b) auto
  with e have c: "c = 32" and e': "v @ 10 # x = b' @ y" by simp_all
  have "last (a @ k @ [58] @ c # b') = 10" using assms(3) l b' by simp
  then have "b' \<noteq> []" using c by (cases b') simp_all
  then obtain d b'' where b'': "b' = d # b''" by (cases b') auto
  then have "isspace d" using b b' by simp
  moreover obtain h t where v: "v = h # t" using ok by (cases v) (simp_all add: entry_ok_def)
  moreover have "h = d" using e' b'' v by simp
  ultimately show False using ok by (simp add: entry_ok_def)
qed

lemma rewrite_prefix_differs:
  assumes "nl_terminated ls" "changed ls"
  shows "take j (concat (rewrite ls)) \<noteq> concat ls"
  using assms
proof (induction ls arbitrary: j rule: rewrite.induct)
  case (1 l n rest)
  show ?case
  proof (cases "block l n")
    case True
    have ne: "replaced l @ x \<noteq> l @ y" for x y
      using True 1(3) by (intro block_differs) simp_all
    show ?thesis
    proof
      assume eq: "take j (concat (rewrite (l # n # rest))) = concat (l # n # rest)"
      have rw: "concat (rewrite (l # n # rest)) = replaced l @ concat (rewrite rest)"
        using True by simp
      have c: "concat (l # n # rest) = l @ n @ concat rest" by simp
      from eq have eq': "take j (replaced l @ concat (rewrite rest)) = l @ n @ concat rest"
        by (simp only: rw c)
      have "replaced l @ concat (rewrite rest)
              = take j (replaced l @ concat (rewrite rest)) @ drop j (replaced l @ concat (rewrite rest))"
        by (rule append_take_drop_id [symmetric])
      then have "replaced l @ concat (rewrite rest)
              = (l @ n @ concat rest) @ drop j (replaced l @ concat (rewrite rest))"
        by (simp only: eq')
      then have "replaced l @ concat (rewrite rest)
              = l @ (n @ concat rest @ drop j (replaced l @ concat (rewrite rest)))"
        by (simp only: append_assoc)
      with ne show False by blast
    qed
  next
    case False
    show ?thesis
    proof
      assume eq: "take j (concat (rewrite (l # n # rest))) = concat (l # n # rest)"
      then have e: "take j (l @ concat (rewrite (n # rest))) = l @ concat (n # rest)"
        using False by simp
      then have "length (take j (l @ concat (rewrite (n # rest)))) = length (l @ concat (n # rest))"
        by (rule arg_cong)
      then have "min (length (l @ concat (rewrite (n # rest)))) j = length l + length (concat (n # rest))"
        by (simp only: length_take length_append)
      then have "length l \<le> j" by linarith
      with e have "take (j - length l) (concat (rewrite (n # rest))) = concat (n # rest)"
        by simp
      moreover have nt: "nl_terminated (n # rest)" using 1(3) by simp
      moreover have ch: "changed (n # rest)" using 1(4) False by simp
      moreover have "take (j - length l) (concat (rewrite (n # rest))) \<noteq> concat (n # rest)"
        using False nt ch by (rule 1(2))
      ultimately show False by simp
    qed
  qed
qed simp_all

lemma rewrite_differs:
  assumes "nl_terminated ls" "changed ls"
  shows "concat (rewrite ls) \<noteq> concat ls"
  using rewrite_prefix_differs [OF assms, of "length (concat (rewrite ls))"] by simp

lemma readlines_prefix_differs:
  assumes "changed (readlines t)"
  shows "take j (concat (rewrite (readlines t))) \<noteq> t"
proof (cases "13 \<in> set t")
  case True
  have "13 \<notin> set (concat (readlines t))"
    by (simp only: concat_readlines universal_newlines_no_cr not_False_eq_True)
  then have "13 \<notin> set (concat (rewrite (readlines t)))" by (rule rewrite_no_cr)
  then have "13 \<notin> set (take j (concat (rewrite (readlines t))))"
    by (metis in_set_takeD)
  with True show ?thesis by metis
next
  case False
  then have "concat (readlines t) = t"
    by (simp add: concat_readlines universal_newlines_id)
  with rewrite_prefix_differs [OF nl_terminated_readlines assms, of j] show ?thesis by simp
qed

lemma readlines_differs:
  assumes "changed (readlines t)"
  shows "concat (rewrite (readlines t)) \<noteq> t"
  using readlines_prefix_differs [OF assms, of "length (concat (rewrite (readlines t)))"] by simp

subsection \<open>The text written encodes\<close>

lemma table_ascii:
  "list_all (\<lambda>kv. list_all (\<lambda>c. c < 128) (fst kv) \<and> list_all (\<lambda>c. c < 128) (snd kv)) replacements"
  by (simp add: replacements_def u_def)

lemma lookup_ascii:
  assumes "lookup k = Some v"
  shows "list_all (\<lambda>c. c < 128) k" "list_all (\<lambda>c. c < 128) v"
  using table_ascii assms by (auto simp: lookup_def list_all_iff dest!: map_of_SomeD)

lemma scalar_ascii: "c < 128 \<Longrightarrow> scalar c"
  by (simp add: scalar_def)

lemma scalar_universal_newlines:
  "list_all scalar t \<Longrightarrow> list_all scalar (universal_newlines t)"
  by (induction t rule: universal_newlines.induct) (simp_all add: scalar_def)

lemma scalar_readlines:
  assumes "list_all scalar t"
  shows "list_all scalar (concat (readlines t))"
  using scalar_universal_newlines [OF assms] by (simp only: concat_readlines)

lemma scalar_replaced:
  assumes "pkg_of l \<noteq> None" "list_all scalar l"
  shows "list_all scalar (replaced l)"
proof -
  from assms obtain k v where kv: "pkg_of l = Some (k, v)" by auto
  then have "lookup k = Some v" by (simp add: pkg_of_iff)
  then have "list_all scalar k" "list_all scalar v"
    using lookup_ascii [of k v] by (auto simp: list_all_iff scalar_ascii)
  moreover have "list_all scalar (takeWhile isspace l)"
    using assms(2) by (auto simp: list_all_iff dest: set_takeWhileD)
  ultimately show ?thesis
    by (simp add: replaced_eq [OF kv] u_def scalar_def)
qed

lemma scalar_rewrite:
  "list_all scalar (concat ls) \<Longrightarrow> list_all scalar (concat (rewrite ls))"
proof (induction ls rule: rewrite.induct)
  case (1 l n rest)
  have l: "list_all scalar l" and n: "list_all scalar n" and rest: "list_all scalar (concat rest)"
    using 1(3) by simp_all
  show ?case
  proof (cases "block l n")
    case True
    have "list_all scalar (replaced l)"
      using True l by (intro scalar_replaced) (simp_all add: block_def)
    moreover have "list_all scalar (concat (rewrite rest))"
      using True rest by (rule 1(1))
    ultimately show ?thesis using True by simp
  next
    case False
    have "list_all scalar (concat (n # rest))" using n rest by simp
    with False have "list_all scalar (concat (rewrite (n # rest)))" by (rule 1(2))
    then show ?thesis using False l by simp
  qed
qed simp_all

lemma writelines_utf8:
  "list_all scalar (concat ls) \<Longrightarrow> writelines ls = (utf8 (concat ls), None)"
  by (induction ls) (simp_all add: utf8_encode_def utf8_append utf8_def)

lemma writelines_rewrite:
  assumes "utf8_decode bs = Some content"
  shows "writelines (rewrite (readlines content))
           = (utf8 (concat (rewrite (readlines content))), None)"
    and "list_all scalar (concat (rewrite (readlines content)))"
proof -
  have "list_all scalar content" using assms by (rule utf8_decode_scalar)
  then have "list_all scalar (concat (readlines content))" by (rule scalar_readlines)
  then show s: "list_all scalar (concat (rewrite (readlines content)))" by (rule scalar_rewrite)
  then show "writelines (rewrite (readlines content))
           = (utf8 (concat (rewrite (readlines content))), None)"
    by (rule writelines_utf8)
qed

lemma written_differs:
  assumes "utf8_decode bs = Some content" "changed (readlines content)"
  shows "take k (utf8 (concat (rewrite (readlines content)))) \<noteq> bs"
proof
  assume eq: "take k (utf8 (concat (rewrite (readlines content)))) = bs"
  then have "utf8_decode (take k (utf8 (concat (rewrite (readlines content))))) = Some content"
    using assms(1) by simp
  from utf8_decode_prefix [OF writelines_rewrite(2) [OF assms(1)] this]
  obtain j where "content = take j (concat (rewrite (readlines content)))" by blast
  with readlines_prefix_differs [OF assms(2), of j] show False by simp
qed

section \<open>Properties of \<open>fix_file\<close>\<close>

lemma io_failure_Exception: "io_failure x \<Longrightarrow> is_Exception x"
  by (cases x) simp_all

lemma fix_file_try_cases:
  obtains (read_fault) x where "read_fault e = Some x" "fix_file_try e p w = (Inl x, w)"
  | (missing) "read_fault e = None" "files w p = None"
      "fix_file_try e p w = (Inl (FileNotFoundError p), w)"
  | (undecodable) bs where "read_fault e = None" "files w p = Some bs" "utf8_decode bs = None"
      "fix_file_try e p w = (Inl UnicodeDecodeError, w)"
  | (unmodified) bs content where "read_fault e = None" "files w p = Some bs"
      "utf8_decode bs = Some content"
      "\<not> snd (scan (readlines content))" "fix_file_try e p w = (Inr (), w)"
  | (open_fault) bs content x where "read_fault e = None" "files w p = Some bs"
      "utf8_decode bs = Some content"
      "snd (scan (readlines content))" "open_w_fault e = Some x" "fix_file_try e p w = (Inl x, w)"
  | (write_fault) bs content k x where "read_fault e = None" "files w p = Some bs"
      "utf8_decode bs = Some content"
      "snd (scan (readlines content))" "open_w_fault e = None" "write_fault e = Some (k, x)"
      "fix_file_try e p w =
         (Inl x, w\<lparr>files := (files w)(p \<mapsto> take k (utf8 (concat (fst (scan (readlines content)))))),
                    writes := writes w @ [p]\<rparr>)"
  | (print_fault) bs content y where "read_fault e = None" "files w p = Some bs"
      "utf8_decode bs = Some content"
      "snd (scan (readlines content))" "open_w_fault e = None" "write_fault e = None"
      "print_fixed_fault e = Some y"
      "fix_file_try e p w =
         (Inl y, w\<lparr>files := (files w)(p \<mapsto> utf8 (concat (fst (scan (readlines content))))),
                    writes := writes w @ [p]\<rparr>)"
  | (written) bs content where "read_fault e = None" "files w p = Some bs"
      "utf8_decode bs = Some content"
      "snd (scan (readlines content))" "open_w_fault e = None" "write_fault e = None"
      "print_fixed_fault e = None"
      "fix_file_try e p w =
         (Inr (), w\<lparr>files := (files w)(p \<mapsto> utf8 (concat (fst (scan (readlines content))))),
                     writes := writes w @ [p], console := console w @ [Fixed p]\<rparr>)"
proof (cases "read_fault e")
  case (Some x)
  then have "fix_file_try e p w = (Inl x, w)"
    by (simp add: fix_file_try_def read_lines_def)
  with Some show ?thesis by (rule read_fault)
next
  case rn: None
  show ?thesis
  proof (cases "files w p")
    case None
    then have "fix_file_try e p w = (Inl (FileNotFoundError p), w)"
      using rn by (simp add: fix_file_try_def read_lines_def)
    with rn None show ?thesis by (rule missing)
  next
    case (Some bs)
    note f = Some
    show ?thesis
    proof (cases "utf8_decode bs")
      case None
      then have "fix_file_try e p w = (Inl UnicodeDecodeError, w)"
        using rn f by (simp add: fix_file_try_def read_lines_def)
      with rn f None show ?thesis by (rule undecodable)
    next
      case (Some content)
      note d = Some
      have rl: "read_lines e p w = Inr (readlines content)"
        using rn f d by (simp add: read_lines_def)
      have wl: "writelines (fst (scan (readlines content)))
                  = (utf8 (concat (fst (scan (readlines content)))), None)"
        using writelines_rewrite(1) [OF d] by (simp add: scan_eq)
      show ?thesis
      proof (cases "snd (scan (readlines content))")
        case False
        then have "fix_file_try e p w = (Inr (), w)"
          by (simp add: fix_file_try_def rl)
        with rn f d False show ?thesis by (rule unmodified)
      next
        case m: True
        show ?thesis
        proof (cases "open_w_fault e")
          case (Some x)
          then have "fix_file_try e p w = (Inl x, w)"
            using m by (simp add: fix_file_try_def rl write_lines_def)
          with rn f d m Some show ?thesis by (rule open_fault)
        next
          case on: None
          show ?thesis
          proof (cases "write_fault e")
            case (Some kx)
            obtain k x where kx: "kx = (k, x)" by (cases kx)
            then have "fix_file_try e p w =
              (Inl x, w\<lparr>files := (files w)(p \<mapsto> take k (utf8 (concat (fst (scan (readlines content)))))),
                      writes := writes w @ [p]\<rparr>)"
              using m on Some by (simp add: fix_file_try_def rl write_lines_def wl)
            with rn f d m on Some kx show ?thesis
              by (intro write_fault [of bs content k x]) simp_all
          next
            case wn: None
            show ?thesis
            proof (cases "print_fixed_fault e")
              case None
              then have "fix_file_try e p w =
                (Inr (), w\<lparr>files := (files w)(p \<mapsto> utf8 (concat (fst (scan (readlines content))))),
                         writes := writes w @ [p], console := console w @ [Fixed p]\<rparr>)"
                using m on wn by (simp add: fix_file_try_def rl write_lines_def wl print_line_def)
              with rn f d m on wn None show ?thesis by (rule written)
            next
              case (Some y)
              then have "fix_file_try e p w =
                (Inl y, w\<lparr>files := (files w)(p \<mapsto> utf8 (concat (fst (scan (readlines content))))),
                         writes := writes w @ [p]\<rparr>)"
                using m on wn by (simp add: fix_file_try_def rl write_lines_def wl print_line_def)
              with rn f d m on wn Some show ?thesis by (rule print_fault)
            qed
          qed
        qed
      qed
    qed
  qed
qed

lemma fix_file_of_try:
  "fix_file_try e p w = (Inr (), w') \<Longrightarrow> fix_file e p w = (Inr (), w')"
  "fix_file_try e p w = (Inl x, w') \<Longrightarrow> is_Exception x \<Longrightarrow> print_error_fault e = None \<Longrightarrow>
     fix_file e p w = (Inr (), w'\<lparr>console := console w' @ [Error_processing p x]\<rparr>)"
  "fix_file_try e p w = (Inl x, w') \<Longrightarrow> is_Exception x \<Longrightarrow> print_error_fault e = Some y \<Longrightarrow>
     fix_file e p w = (Inl y, w')"
  "fix_file_try e p w = (Inl x, w') \<Longrightarrow> \<not> is_Exception x \<Longrightarrow> fix_file e p w = (Inl x, w')"
  by (simp_all add: fix_file_def print_line_def)

lemma fix_file_snd:
  "files (snd (fix_file e p w)) = files (snd (fix_file_try e p w))"
  "writes (snd (fix_file e p w)) = writes (snd (fix_file_try e p w))"
proof -
  obtain r v where t: "fix_file_try e p w = (r, v)" by (cases "fix_file_try e p w")
  show "files (snd (fix_file e p w)) = files (snd (fix_file_try e p w))"
    using t by (cases r) (simp_all add: fix_file_def print_line_def split: option.splits)
  show "writes (snd (fix_file e p w)) = writes (snd (fix_file_try e p w))"
    using t by (cases r) (simp_all add: fix_file_def print_line_def split: option.splits)
qed

lemma fix_file_frame:
  assumes "q \<noteq> p"
  shows "files (snd (fix_file e p w)) q = files w q"
  by (cases e p w rule: fix_file_try_cases) (simp_all add: fix_file_snd assms)

lemma fix_file_try_local:
  assumes "files w1 p = files w2 p"
  shows "fst (fix_file_try e p w1) = fst (fix_file_try e p w2)
       \<and> files (snd (fix_file_try e p w1)) p = files (snd (fix_file_try e p w2)) p
       \<and> drop (length (console w1)) (console (snd (fix_file_try e p w1)))
           = drop (length (console w2)) (console (snd (fix_file_try e p w2)))"
proof (cases e p w1 rule: fix_file_try_cases)
  case (read_fault x)
  then show ?thesis using assms by (simp add: fix_file_try_def read_lines_def)
next
  case missing
  then show ?thesis using assms by (simp add: fix_file_try_def read_lines_def)
next
  case (undecodable bs)
  then show ?thesis using assms by (simp add: fix_file_try_def read_lines_def)
next
  case (unmodified bs content)
  then show ?thesis using assms by (simp add: fix_file_try_def read_lines_def)
next
  case (open_fault bs content x)
  then show ?thesis using assms by (simp add: fix_file_try_def read_lines_def write_lines_def)
next
  case (write_fault bs content k x)
  have "writelines (fst (scan (readlines content)))
          = (utf8 (concat (fst (scan (readlines content)))), None)"
    using writelines_rewrite(1) [OF write_fault(3)] by (simp add: scan_eq)
  then show ?thesis
    using write_fault assms by (simp add: fix_file_try_def read_lines_def write_lines_def)
next
  case (print_fault bs content y)
  have "writelines (fst (scan (readlines content)))
          = (utf8 (concat (fst (scan (readlines content)))), None)"
    using writelines_rewrite(1) [OF print_fault(3)] by (simp add: scan_eq)
  then show ?thesis
    using print_fault assms
    by (simp add: fix_file_try_def read_lines_def write_lines_def print_line_def)
next
  case (written bs content)
  have "writelines (fst (scan (readlines content)))
          = (utf8 (concat (fst (scan (readlines content)))), None)"
    using writelines_rewrite(1) [OF written(3)] by (simp add: scan_eq)
  then show ?thesis
    using written assms
    by (simp add: fix_file_try_def read_lines_def write_lines_def print_line_def)
qed

lemma fix_file_console:
  "\<exists>r. console (snd (fix_file_try e p w)) = console w @ r"
  by (cases e p w rule: fix_file_try_cases) simp_all

lemma fix_file_local:
  assumes "files w1 p = files w2 p"
  shows "fst (fix_file e p w1) = fst (fix_file e p w2)
       \<and> files (snd (fix_file e p w1)) p = files (snd (fix_file e p w2)) p
       \<and> drop (length (console w1)) (console (snd (fix_file e p w1)))
           = drop (length (console w2)) (console (snd (fix_file e p w2)))"
proof -
  obtain r1 v1 where t1: "fix_file_try e p w1 = (r1, v1)" by (cases "fix_file_try e p w1")
  obtain r2 v2 where t2: "fix_file_try e p w2 = (r2, v2)" by (cases "fix_file_try e p w2")
  obtain c1 where c1: "console v1 = console w1 @ c1" using fix_file_console [of e p w1] t1 by auto
  obtain c2 where c2: "console v2 = console w2 @ c2" using fix_file_console [of e p w2] t2 by auto
  from fix_file_try_local [OF assms, of e] t1 t2 c1 c2
  have r: "r2 = r1" and f: "files v1 p = files v2 p" and c: "c2 = c1" by simp_all
  show ?thesis
  proof (cases r1)
    case (Inl x)
    then show ?thesis
      using t1 t2 c1 c2 r f c by (simp add: fix_file_def print_line_def split: option.splits)
  next
    case (Inr y)
    then show ?thesis
      using t1 t2 c1 c2 r f c by (simp add: fix_file_def)
  qed
qed

lemma reports_local: "files w1 p = files w2 p \<Longrightarrow> reports e p w1 = reports e p w2"
  using fix_file_local [of w1 p w2 e] by (simp add: reports_def)

lemma console_reports: "console (snd (fix_file e p w)) = console w @ reports e p w"
proof -
  obtain r v where t: "fix_file_try e p w = (r, v)" by (cases "fix_file_try e p w")
  obtain c where c: "console v = console w @ c" using fix_file_console [of e p w] t by auto
  have "\<exists>c'. console (snd (fix_file e p w)) = console w @ c'"
    using t c by (cases r) (simp_all add: fix_file_def print_line_def split: option.splits)
  then show ?thesis by (auto simp: reports_def)
qed

lemma fix_all_frame:
  assumes "p \<notin> set ps"
  shows "files (snd (fix_all envs k ps w)) p = files w p"
  using assms
proof (induction ps arbitrary: k w)
  case Nil
  then show ?case by simp
next
  case (Cons q ps)
  then have q: "p \<noteq> q" and ps: "p \<notin> set ps" by auto
  obtain r w' where f: "fix_file (envs k) q w = (r, w')" by (cases "fix_file (envs k) q w")
  have w': "files w' p = files w p" using fix_file_frame [OF q, of "envs k" w] f by simp
  show ?case
  proof (cases r)
    case (Inl x)
    then show ?thesis using f w' by simp
  next
    case (Inr y)
    then show ?thesis using f w' Cons.IH [OF ps, of "Suc k" w'] by simp
  qed
qed

lemma fix_file_try_raises:
  assumes "io_failures_only e" "fst (fix_file_try e p w) = Inl x"
  shows "is_Exception x \<and> console (snd (fix_file_try e p w)) = console w"
proof (cases e p w rule: fix_file_try_cases)
  case (read_fault x')
  then show ?thesis using assms by (simp add: io_failures_only_def io_failure_Exception)
next
  case missing
  then show ?thesis using assms by auto
next
  case (undecodable bs)
  then show ?thesis using assms by auto
next
  case (unmodified bs content)
  then show ?thesis using assms by simp
next
  case (open_fault bs content x')
  then show ?thesis using assms by (simp add: io_failures_only_def io_failure_Exception)
next
  case (write_fault bs content k x')
  then show ?thesis using assms by (simp add: io_failures_only_def io_failure_Exception)
next
  case (print_fault bs content y)
  then show ?thesis using assms by (simp add: io_failures_only_def io_failure_Exception)
next
  case (written bs content)
  then show ?thesis using assms by simp
qed

lemma fix_file_catches:
  assumes "io_failures_only e" "print_error_fault e = None"
  shows "fst (fix_file e p w) = Inr ()
       \<and> (\<forall>x. fst (fix_file_try e p w) = Inl x \<longrightarrow>
             console (snd (fix_file e p w)) = console w @ [Error_processing p x])"
proof -
  obtain r v where t: "fix_file_try e p w = (r, v)" by (cases "fix_file_try e p w")
  show ?thesis
  proof (cases r)
    case (Inl x)
    have "is_Exception x" "console v = console w"
      using fix_file_try_raises [OF assms(1), of p w x] t Inl by simp_all
    then show ?thesis
      using fix_file_of_try(2) [of e p w x v] t Inl assms(2) by simp
  next
    case (Inr y)
    then show ?thesis using fix_file_of_try(1) [of e p w v] t by simp
  qed
qed

lemma fix_file_escapes:
  assumes "io_failures_only e" "fst (fix_file_try e p w) = Inl x" "print_error_fault e = Some y"
  shows "fix_file e p w = (Inl y, snd (fix_file_try e p w))"
proof -
  obtain v where t: "fix_file_try e p w = (Inl x, v)"
    using assms(2) by (cases "fix_file_try e p w") simp
  have "is_Exception x" using fix_file_try_raises [OF assms(1,2)] by simp
  then show ?thesis using fix_file_of_try(3) [OF t _ assms(3)] t by simp
qed

lemma fix_all_catches:
  assumes "\<forall>j. io_failures_only (envs j) \<and> print_error_fault (envs j) = None"
  shows "fst (fix_all envs k ps w) = Inr ()"
proof (induction ps arbitrary: k w)
  case Nil
  then show ?case by simp
next
  case (Cons q ps)
  have "fst (fix_file (envs k) q w) = Inr ()" using assms fix_file_catches by blast
  then obtain w' where "fix_file (envs k) q w = (Inr (), w')"
    by (cases "fix_file (envs k) q w") simp
  then show ?case using Cons.IH [of "Suc k" w'] by simp
qed

lemma fix_all_each:
  assumes "\<forall>j. io_failures_only (envs j) \<and> print_error_fault (envs j) = None"
    and "distinct ps" "i < length ps"
  shows "files (snd (fix_all envs k ps w)) (ps ! i)
           = files (snd (fix_file (envs (k + i)) (ps ! i) w)) (ps ! i)"
  using assms(2,3)
proof (induction ps arbitrary: k w i)
  case Nil
  then show ?case by simp
next
  case (Cons q ps)
  have "fst (fix_file (envs k) q w) = Inr ()" using assms(1) fix_file_catches by blast
  then obtain w' where f: "fix_file (envs k) q w = (Inr (), w')"
    by (cases "fix_file (envs k) q w") simp
  then have all: "fix_all envs k (q # ps) w = fix_all envs (Suc k) ps w'" by simp
  show ?case
  proof (cases i)
    case 0
    have "q \<notin> set ps" using Cons.prems by simp
    from fix_all_frame [OF this, of envs "Suc k" w'] show ?thesis
      using 0 f all by simp
  next
    case (Suc j)
    then have j: "j < length ps" and d: "distinct ps" and ne: "ps ! j \<noteq> q"
      using Cons.prems by auto
    have "files w' (ps ! j) = files w (ps ! j)"
      using fix_file_frame [OF ne, of "envs k" w] f by simp
    from fix_file_local [OF this, of "envs (Suc k + j)"]
    have "files (snd (fix_file (envs (Suc k + j)) (ps ! j) w')) (ps ! j)
            = files (snd (fix_file (envs (Suc k + j)) (ps ! j) w)) (ps ! j)" by simp
    then show ?thesis
      using Cons.IH [OF d j, of "Suc k" w'] all Suc by simp
  qed
qed

lemma fix_all_console:
  assumes "\<forall>j. io_failures_only (envs j) \<and> print_error_fault (envs j) = None"
    and "distinct ps"
  shows "console (snd (fix_all envs k ps w))
           = console w @ concat (map (\<lambda>i. reports (envs (k + i)) (ps ! i) w) [0..<length ps])"
  using assms(2)
proof (induction ps arbitrary: k w)
  case Nil
  then show ?case by simp
next
  case (Cons q ps)
  have "fst (fix_file (envs k) q w) = Inr ()" using assms(1) fix_file_catches by blast
  then obtain w' where f: "fix_file (envs k) q w = (Inr (), w')"
    by (cases "fix_file (envs k) q w") simp
  then have all: "fix_all envs k (q # ps) w = fix_all envs (Suc k) ps w'" by simp
  have c: "console w' = console w @ reports (envs k) q w"
    using console_reports [of "envs k" q w] f by simp
  have d: "distinct ps" and nq: "q \<notin> set ps" using Cons.prems by simp_all
  have same: "reports (envs (Suc k + i)) (ps ! i) w' = reports (envs (Suc k + i)) (ps ! i) w"
    if "i < length ps" for i
  proof -
    have "ps ! i \<noteq> q" using that nq by (metis nth_mem)
    then have "files w' (ps ! i) = files w (ps ! i)"
      using fix_file_frame [of "ps ! i" q "envs k" w] f by simp
    then show ?thesis by (rule reports_local)
  qed
  have m: "map (\<lambda>i. reports (envs (Suc k + i)) (ps ! i) w') [0..<length ps]
          = map (\<lambda>i. reports (envs (k + Suc i)) ((q # ps) ! Suc i) w) [0..<length ps]"
    using same by (intro map_cong) simp_all
  have u: "map (\<lambda>i. reports (envs (k + i)) ((q # ps) ! i) w) [0..<length (q # ps)]
         = reports (envs k) q w
           # map (\<lambda>i. reports (envs (k + Suc i)) ((q # ps) ! Suc i) w) [0..<length ps]"
    by (simp add: upt_conv_Cons map_Suc_upt [symmetric] comp_def del: upt_Suc)
  have "console (snd (fix_all envs (Suc k) ps w'))
          = console w' @ concat (map (\<lambda>i. reports (envs (Suc k + i)) (ps ! i) w') [0..<length ps])"
    by (rule Cons.IH [OF d])
  then show ?case
    unfolding all u m c by simp
qed

section \<open>Outcomes of a call\<close>

lemma fix_file_try_modified:
  assumes "files w p = Some bs" "utf8_decode bs = Some content" "snd (scan (readlines content))"
    and "read_fault e = None" "open_w_fault e = None"
  shows "fix_file_try e p w =
     (case write_fault e of
        Some (k, x) \<Rightarrow>
          (Inl x, w\<lparr>files := (files w)(p \<mapsto> take k (utf8 (concat (fst (scan (readlines content)))))),
                     writes := writes w @ [p]\<rparr>)
      | None \<Rightarrow>
          (case print_fixed_fault e of
             Some y \<Rightarrow>
               (Inl y, w\<lparr>files := (files w)(p \<mapsto> utf8 (concat (fst (scan (readlines content))))),
                          writes := writes w @ [p]\<rparr>)
           | None \<Rightarrow>
               (Inr (), w\<lparr>files := (files w)(p \<mapsto> utf8 (concat (fst (scan (readlines content))))),
                           writes := writes w @ [p], console := console w @ [Fixed p]\<rparr>)))"
  using assms by (cases e p w rule: fix_file_try_cases) simp_all

lemma written_not_original:
  assumes "utf8_decode bs = Some content" "snd (scan (readlines content))"
  shows "take k (utf8 (concat (fst (scan (readlines content))))) \<noteq> bs"
    and "utf8 (concat (fst (scan (readlines content)))) \<noteq> bs"
proof -
  have c: "changed (readlines content)" using assms(2) by (simp add: scan_eq)
  show "take k (utf8 (concat (fst (scan (readlines content))))) \<noteq> bs"
    using written_differs [OF assms(1) c, of k] by (simp add: scan_eq)
  show "utf8 (concat (fst (scan (readlines content)))) \<noteq> bs"
    using written_differs [OF assms(1) c, of "length (utf8 (concat (rewrite (readlines content))))"]
    by (simp add: scan_eq)
qed

lemma universal_newlines_line:
  "13 \<notin> set a \<Longrightarrow> universal_newlines (a @ 10 # rest) = a @ 10 # universal_newlines rest"
proof (induction a)
  case Nil
  then show ?case by (cases rest) simp_all
next
  case (Cons x a)
  then have x: "x \<noteq> 13" and a: "13 \<notin> set a" by auto
  obtain d cs where dc: "a @ 10 # rest = d # cs" by (cases a) simp_all
  have "universal_newlines (x # d # cs) = x # universal_newlines (d # cs)"
    using x by simp
  then show ?case using Cons.IH [OF a] dc by simp
qed

lemma readlines_line:
  assumes "10 \<notin> set a" "13 \<notin> set a"
  shows "readlines (a @ 10 # rest) = (a @ [10]) # readlines rest"
  using split_lines_line [OF assms(1), of "[]" "universal_newlines rest"]
  by (simp add: readlines_def universal_newlines_line [OF assms(2)])

section \<open>The example files\<close>

lemma ascii_scalar: "list_all (\<lambda>c. c < 128) s \<Longrightarrow> list_all scalar s"
  by (induction s) (simp_all add: scalar_def)

lemma ex_chars:
  "10 \<notin> set (u ''  web3_universal_core:'')" "13 \<notin> set (u ''  web3_universal_core:'')"
  "10 \<notin> set (u ''    path: ../core'')" "13 \<notin> set (u ''    path: ../core'')"
  "10 \<notin> set (u ''dependencies:'')" "13 \<notin> set (u ''dependencies:'')"
  "10 \<notin> set (u ''  http: ^1.0.0'')" "13 \<notin> set (u ''  http: ^1.0.0'')"
  by (simp_all add: u_def)

lemma ex_ascii:
  "list_all (\<lambda>c. c < 128) ex_text" "list_all (\<lambda>c. c < 128) ex_plain"
  "list_all (\<lambda>c. c < 128) (u ''  web3_universal_core: ^0.1.1'' @ [10])"
  by (simp_all add: ex_text_def ex_plain_def u_def)

lemma ex_decode:
  "utf8_decode (utf8 ex_text) = Some ex_text" "utf8_decode (utf8 ex_plain) = Some ex_plain"
  by (rule utf8_decode_utf8, rule ascii_scalar, rule ex_ascii)+

lemma ex_readlines:
  "readlines ex_text = [u ''  web3_universal_core:'' @ [10], u ''    path: ../core'' @ [10]]"
  unfolding ex_text_def by (rule readlines_two) (rule ex_chars)+

lemma ex_readlines_plain:
  "readlines ex_plain = [u ''dependencies:'' @ [10], u ''  http: ^1.0.0'' @ [10]]"
  unfolding ex_plain_def by (rule readlines_two) (rule ex_chars)+

lemma ex_scan:
  "scan [u ''  web3_universal_core:'' @ [10], u ''    path: ../core'' @ [10]]
     = ([u ''  web3_universal_core: ^0.1.1'' @ [10]], True)"
proof -
  have e: "[10] = [] \<or> [10] = [10::nat]" by simp
  show ?thesis
    using block_core [OF e, of "[10]"] by (simp add: scan_eq replaced_core [OF e])
qed

lemma ex_writelines:
  "writelines [u ''  web3_universal_core: ^0.1.1'' @ [10]]
     = (utf8 (u ''  web3_universal_core: ^0.1.1'' @ [10]), None)"
  using writelines_utf8 [of "[u ''  web3_universal_core: ^0.1.1'' @ [10]]"]
    ascii_scalar [OF ex_ascii(3)] by simp

lemma ex_file_try:
  assumes "files w p = Some (utf8 ex_text)" "read_fault e = None" "open_w_fault e = None"
  shows "fix_file_try e p w =
     (case write_fault e of
        Some (k, x) \<Rightarrow>
          (Inl x, w\<lparr>files := (files w)(p \<mapsto> take k (utf8 (u ''  web3_universal_core: ^0.1.1'' @ [10]))),
                     writes := writes w @ [p]\<rparr>)
      | None \<Rightarrow>
          (case print_fixed_fault e of
             Some y \<Rightarrow>
               (Inl y, w\<lparr>files := (files w)(p \<mapsto> utf8 (u ''  web3_universal_core: ^0.1.1'' @ [10])),
                          writes := writes w @ [p]\<rparr>)
           | None \<Rightarrow>
               (Inr (), w\<lparr>files := (files w)(p \<mapsto> utf8 (u ''  web3_universal_core: ^0.1.1'' @ [10])),
                           writes := writes w @ [p], console := console w @ [Fixed p]\<rparr>)))"
  using assms
  by (simp add: fix_file_try_def read_lines_def write_lines_def print_line_def ex_decode
        ex_readlines ex_scan ex_writelines del: writelines.simps split: option.splits)

lemma ex_take2: "take 2 (utf8 (u ''  web3_universal_core: ^0.1.1'' @ [10])) = [Byte 32, Byte 32]"
  by (simp add: utf8_ascii [OF ex_ascii(3)]) (simp add: u_def)

lemma ex_paths:
  "manifests ex_walk ex_join = [ex_m1, ex_m2]" "ex_m1 \<noteq> ex_m2"
  by (simp_all add: manifests_def roots_def ex_walk_def ex_join_def ex_m1_def ex_m2_def u_def)

lemma ex_files:
  "files ex_world ex_m1 = Some (utf8 ex_text)" "files ex_world ex_m2 = Some (utf8 ex_text)"
  using ex_paths(2) by (simp_all add: ex_world_def)

lemma ex_accent_decode: "utf8_decode (utf8 ex_accent) = Some ex_accent"
proof (rule utf8_decode_utf8)
  show "list_all scalar ex_accent"
    using ascii_scalar [OF ex_ascii(1)] by (simp add: ex_accent_def scalar_def)
qed

lemma ex_accent_readlines:
  "readlines ex_accent
     = [[35, 32, 233, 10], u ''  web3_universal_core:'' @ [10], u ''    path: ../core'' @ [10]]"
  using readlines_line [of "[35, 32, 233]" ex_text] by (simp add: ex_accent_def ex_readlines)

lemma ex_accent_scan:
  "scan [[35, 32, 233, 10], u ''  web3_universal_core:'' @ [10], u ''    path: ../core'' @ [10]]
     = ([[35, 32, 233, 10], u ''  web3_universal_core: ^0.1.1'' @ [10]], True)"
proof -
  have e: "[10] = [] \<or> [10] = [10::nat]" by simp
  have n: "\<not> block [35, 32, 233, 10] (u ''  web3_universal_core:'' @ [10])"
    using core_no_path [OF e] by (simp add: block_iff)
  show ?thesis
    using block_core [OF e, of "[10]"] n by (simp add: scan_eq replaced_core [OF e])
qed

lemma ex_accent_take3:
  "take 3 (utf8 (concat [[35, 32, 233, 10], u ''  web3_universal_core: ^0.1.1'' @ [10]]))
     = [Byte 35, Byte 32, Byte 195]"
  by (simp add: utf8_Cons utf8_char_def)

lemma ex_torn: "utf8_decode [Byte 35, Byte 32, Byte 195] = None"
  by simp

lemma ex_env_simps:
  "read_fault no_faults = None" "open_w_fault no_faults = None" "write_fault no_faults = None"
  "print_fixed_fault no_faults = None" "print_error_fault no_faults = None"
  "read_fault (disk_full k) = None" "open_w_fault (disk_full k) = None"
  "write_fault (disk_full k) = Some (k, OSError (u ''No space left on device''))"
  "print_fixed_fault (disk_full k) = None" "print_error_fault (disk_full k) = None"
  "read_fault unreadable_unprintable = Some (OSError (u ''Permission denied''))"
  "print_error_fault unreadable_unprintable = Some (OSError (u ''Broken pipe''))"
  "first_call e 0 = e" "first_call e (Suc j) = no_faults"
  by (simp_all add: no_faults_def disk_full_def unreadable_def unreadable_unprintable_def
        first_call_def)

lemma ex_io_failures:
  "io_failures_only no_faults" "io_failures_only (disk_full k)"
  "io_failures_only unreadable_unprintable"
  by (simp_all add: io_failures_only_def no_faults_def disk_full_def unreadable_def
        unreadable_unprintable_def)

lemma ex_fix_ok:
  assumes "files w p = Some (utf8 ex_text)"
  shows "fix_file no_faults p w =
     (Inr (), w\<lparr>files := (files w)(p \<mapsto> utf8 (u ''  web3_universal_core: ^0.1.1'' @ [10])),
                 writes := writes w @ [p], console := console w @ [Fixed p]\<rparr>)"
  using ex_file_try [OF assms, of no_faults] by (simp add: ex_env_simps fix_file_of_try(1))

lemma ex_try_full:
  assumes "files w p = Some (utf8 ex_text)"
  shows "fix_file_try (disk_full k) p w =
     (Inl (OSError (u ''No space left on device'')),
      w\<lparr>files := (files w)(p \<mapsto> take k (utf8 (u ''  web3_universal_core: ^0.1.1'' @ [10]))),
        writes := writes w @ [p]\<rparr>)"
  using ex_file_try [OF assms, of "disk_full k"] by (simp add: ex_env_simps)

lemma ex_fix_full:
  assumes "files w p = Some (utf8 ex_text)"
  shows "fix_file (disk_full k) p w =
     (Inr (),
      w\<lparr>files := (files w)(p \<mapsto> take k (utf8 (u ''  web3_universal_core: ^0.1.1'' @ [10]))),
        writes := writes w @ [p],
        console := console w @ [Error_processing p (OSError (u ''No space left on device''))]\<rparr>)"
  using fix_file_of_try(2) [OF ex_try_full [OF assms, of k]] by (simp add: ex_env_simps)

lemma ex_try_unreadable:
  "fix_file_try unreadable_unprintable p w = (Inl (OSError (u ''Permission denied'')), w)"
  by (simp add: fix_file_try_def read_lines_def ex_env_simps)

lemma ex_fix_unreadable: "fix_file unreadable_unprintable p w = (Inl (OSError (u ''Broken pipe'')), w)"
  using fix_file_of_try(3) [OF ex_try_unreadable, of "OSError (u ''Broken pipe'')"]
  by (simp add: ex_env_simps)

section \<open>The claims about files\<close>

text \<open>
  C2. When no line of the table's names is followed by a line with \<open>path:\<close>, the scan
  returns the lines as they are with the flag unset, and \<open>fix_file\<close> on a file with these
  lines never opens it for writing and leaves every file as it is, whatever the operating
  system answers.
\<close>

theorem C2_no_block_no_write:
  assumes "\<forall>i. Suc i < length ls \<longrightarrow>
             \<not> ((\<exists>k v. strip (ls ! i) = k @ [58] \<and> lookup k = Some v)
                 \<and> contains path_indicator (ls ! Suc i))"
  shows "scan ls = (ls, False)
       \<and> (files w p = Some bs \<and> utf8_decode bs = Some content \<and> readlines content = ls \<longrightarrow>
            files (snd (fix_file e p w)) = files w \<and> writes (snd (fix_file e p w)) = writes w)"
proof -
  have "\<not> (\<exists>i. Suc i < length ls \<and> block (ls ! i) (ls ! Suc i))"
    using assms unfolding block_iff by blast
  then have nc: "\<not> changed ls" unfolding changed_iff_pair .
  then have s: "scan ls = (ls, False)" by (simp add: scan_eq unchanged_rewrite)
  have "files (snd (fix_file e p w)) = files w \<and> writes (snd (fix_file e p w)) = writes w"
    if c: "files w p = Some bs" and d: "utf8_decode bs = Some content"
      and r: "readlines content = ls"
  proof (cases e p w rule: fix_file_try_cases)
    case (read_fault x)
    then show ?thesis by (simp add: fix_file_snd)
  next
    case missing
    then show ?thesis by (simp add: fix_file_snd)
  next
    case (undecodable b')
    then show ?thesis by (simp add: fix_file_snd)
  next
    case (unmodified b' c')
    then show ?thesis by (simp add: fix_file_snd)
  next
    case (open_fault b' c' x)
    then show ?thesis by (simp add: fix_file_snd)
  next
    case (write_fault b' c' k x)
    then show ?thesis using c d r s by simp
  next
    case (print_fault b' c' y)
    then show ?thesis using c d r s by simp
  next
    case (written b' c')
    then show ?thesis using c d r s by simp
  qed
  with s show ?thesis by blast
qed

theorem C2_no_block_no_write_witness:
  "scan [u ''dependencies:'' @ [10], u ''  http: ^1.0.0'' @ [10]]
     = ([u ''dependencies:'' @ [10], u ''  http: ^1.0.0'' @ [10]], False)
   \<and> files \<lparr>files = one_file (u ''pubspec.yaml'') (utf8 ex_plain), console = [], writes = []\<rparr>
        (u ''pubspec.yaml'') = Some (utf8 ex_plain)
   \<and> utf8_decode (utf8 ex_plain) = Some ex_plain
   \<and> readlines ex_plain = [u ''dependencies:'' @ [10], u ''  http: ^1.0.0'' @ [10]]
   \<and> files (snd (fix_file no_faults (u ''pubspec.yaml'')
        \<lparr>files = one_file (u ''pubspec.yaml'') (utf8 ex_plain), console = [], writes = []\<rparr>))
       = one_file (u ''pubspec.yaml'') (utf8 ex_plain)
   \<and> writes (snd (fix_file no_faults (u ''pubspec.yaml'')
        \<lparr>files = one_file (u ''pubspec.yaml'') (utf8 ex_plain), console = [], writes = []\<rparr>))
       = []"
proof -
  let ?ls = "[u ''dependencies:'' @ [10], u ''  http: ^1.0.0'' @ [10]]"
  let ?w = "\<lparr>files = one_file (u ''pubspec.yaml'') (utf8 ex_plain), console = [], writes = []\<rparr>"
  have h: "\<forall>i. Suc i < length ?ls \<longrightarrow>
             \<not> ((\<exists>k v. strip (?ls ! i) = k @ [58] \<and> lookup k = Some v)
                 \<and> contains path_indicator (?ls ! Suc i))"
    using http_no_path by (simp add: less_Suc_eq)
  have f: "files ?w (u ''pubspec.yaml'') = Some (utf8 ex_plain)"
    by (simp add: one_file_def)
  from C2_no_block_no_write [OF h, of ?w "u ''pubspec.yaml''" "utf8 ex_plain" ex_plain no_faults]
    f ex_decode(2) ex_readlines_plain
  show ?thesis by simp
qed

text \<open>
  C7. A failure of reading or writing (a file that is not there, an error of the operating
  system, bytes that do not decode) is caught in \<open>fix_file\<close>. When the report can be
  printed, the call returns normally and has printed the path with the exception; the
  driver loop then runs to its end, prints what each call prints, and leaves every file as
  its own call of \<open>fix_file\<close> leaves it. When printing the report raises, that exception
  leaves \<open>fix_file\<close>, and an exception that leaves \<open>fix_file\<close> ends the run.
\<close>

theorem C7_failures_caught_when_reported:
  assumes "io_failures_only e" "print_error_fault e = None"
    and "\<forall>j. io_failures_only (envs j) \<and> print_error_fault (envs j) = None"
  shows "fst (fix_file e p w) = Inr ()
       \<and> (\<forall>x. fst (fix_file_try e p w) = Inl x \<longrightarrow>
             console (snd (fix_file e p w)) = console w @ [Error_processing p x])
       \<and> fst (fix_all envs k ps w) = Inr ()
       \<and> (distinct ps \<longrightarrow>
            console (snd (fix_all envs k ps w))
              = console w @ concat (map (\<lambda>i. reports (envs (k + i)) (ps ! i) w) [0..<length ps])
            \<and> (\<forall>i < length ps.
                 files (snd (fix_all envs k ps w)) (ps ! i)
                   = files (snd (fix_file (envs (k + i)) (ps ! i) w)) (ps ! i)))
       \<and> fst (main walk join envs w) = Inr ()
       \<and> (distinct (manifests walk join) \<longrightarrow>
            console (snd (main walk join envs w))
              = console w @ concat (map (\<lambda>i. reports (envs i) (manifests walk join ! i) w)
                                      [0..<length (manifests walk join)])
            \<and> (\<forall>i < length (manifests walk join).
                 files (snd (main walk join envs w)) (manifests walk join ! i)
                   = files (snd (fix_file (envs i) (manifests walk join ! i) w))
                       (manifests walk join ! i)))
       \<and> (\<forall>e' x y. io_failures_only e' \<and> fst (fix_file_try e' p w) = Inl x
                    \<and> print_error_fault e' = Some y \<longrightarrow>
             fix_file e' p w = (Inl y, snd (fix_file_try e' p w)))
       \<and> (\<forall>envs' x w'. fix_file (envs' k) p w = (Inl x, w') \<longrightarrow>
             fix_all envs' k (p # ps) w = (Inl x, w'))"
proof -
  have 1: "fst (fix_file e p w) = Inr ()
       \<and> (\<forall>x. fst (fix_file_try e p w) = Inl x \<longrightarrow>
             console (snd (fix_file e p w)) = console w @ [Error_processing p x])"
    using assms(1,2) by (rule fix_file_catches)
  have 2: "fst (fix_all envs k ps w) = Inr ()"
    using assms(3) by (rule fix_all_catches)
  have 3: "console (snd (fix_all envs k ps w))
              = console w @ concat (map (\<lambda>i. reports (envs (k + i)) (ps ! i) w) [0..<length ps])
            \<and> (\<forall>i < length ps.
                 files (snd (fix_all envs k ps w)) (ps ! i)
                   = files (snd (fix_file (envs (k + i)) (ps ! i) w)) (ps ! i))"
    if d: "distinct ps"
    using fix_all_console [OF assms(3) d, of k w] fix_all_each [OF assms(3) d, of _ k w]
    by blast
  have 4: "fst (main walk join envs w) = Inr ()"
    unfolding main_def using assms(3) by (rule fix_all_catches)
  have 5: "console (snd (main walk join envs w))
              = console w @ concat (map (\<lambda>i. reports (envs i) (manifests walk join ! i) w)
                                      [0..<length (manifests walk join)])
            \<and> (\<forall>i < length (manifests walk join).
                 files (snd (main walk join envs w)) (manifests walk join ! i)
                   = files (snd (fix_file (envs i) (manifests walk join ! i) w))
                       (manifests walk join ! i))"
    if d: "distinct (manifests walk join)"
    using fix_all_console [OF assms(3) d, of 0 w] fix_all_each [OF assms(3) d, of _ 0 w]
    by (simp add: main_def)
  have 6: "\<forall>e' x y. io_failures_only e' \<and> fst (fix_file_try e' p w) = Inl x
                    \<and> print_error_fault e' = Some y \<longrightarrow>
             fix_file e' p w = (Inl y, snd (fix_file_try e' p w))"
    using fix_file_escapes by blast
  have 7: "\<forall>envs' x w'. fix_file (envs' k) p w = (Inl x, w') \<longrightarrow>
             fix_all envs' k (p # ps) w = (Inl x, w')"
    by simp
  from 1 2 3 4 5 6 7 show ?thesis by blast
qed

theorem C7_failures_caught_when_reported_witness:
  "io_failures_only (disk_full 2) \<and> print_error_fault (disk_full 2) = None
   \<and> io_failures_only no_faults \<and> print_error_fault no_faults = None
   \<and> manifests ex_walk ex_join = [ex_m1, ex_m2]
   \<and> fst (fix_file_try (disk_full 2) ex_m1 ex_world)
       = Inl (OSError (u ''No space left on device''))
   \<and> fst (fix_file (disk_full 2) ex_m1 ex_world) = Inr ()
   \<and> console (snd (fix_file (disk_full 2) ex_m1 ex_world))
       = [Error_processing ex_m1 (OSError (u ''No space left on device''))]
   \<and> fst (main ex_walk ex_join (first_call (disk_full 2)) ex_world) = Inr ()
   \<and> console (snd (main ex_walk ex_join (first_call (disk_full 2)) ex_world))
       = [Error_processing ex_m1 (OSError (u ''No space left on device'')), Fixed ex_m2]
   \<and> files (snd (main ex_walk ex_join (first_call (disk_full 2)) ex_world)) ex_m1
       = Some [Byte 32, Byte 32]
   \<and> files (snd (main ex_walk ex_join (first_call (disk_full 2)) ex_world)) ex_m2
       = Some (utf8 (u ''  web3_universal_core: ^0.1.1'' @ [10]))"
proof -
  have h1: "io_failures_only (disk_full 2)" by (rule ex_io_failures)
  have h2: "print_error_fault (disk_full 2) = None" by (rule ex_env_simps)
  have h3: "\<forall>j. io_failures_only (first_call (disk_full 2) j)
               \<and> print_error_fault (first_call (disk_full 2) j) = None"
    by (simp add: first_call_def ex_io_failures ex_env_simps)
  have d: "distinct (manifests ex_walk ex_join)" using ex_paths by simp
  have t: "fst (fix_file_try (disk_full 2) ex_m1 ex_world)
       = Inl (OSError (u ''No space left on device''))"
    by (simp add: ex_try_full [OF ex_files(1)])
  have c0: "console ex_world = []" by (simp add: ex_world_def)
  have r0: "reports (disk_full 2) ex_m1 ex_world
              = [Error_processing ex_m1 (OSError (u ''No space left on device''))]"
    by (simp add: reports_def ex_fix_full [OF ex_files(1)])
  have r1: "reports no_faults ex_m2 ex_world = [Fixed ex_m2]"
    by (simp add: reports_def ex_fix_ok [OF ex_files(2)])
  have f0: "files (snd (fix_file (disk_full 2) ex_m1 ex_world)) ex_m1 = Some [Byte 32, Byte 32]"
    by (simp add: ex_fix_full [OF ex_files(1)] ex_take2)
  have f1: "files (snd (fix_file no_faults ex_m2 ex_world)) ex_m2
              = Some (utf8 (u ''  web3_universal_core: ^0.1.1'' @ [10]))"
    by (simp add: ex_fix_ok [OF ex_files(2)])
  note c = C7_failures_caught_when_reported [OF h1 h2 h3, of ex_m1 ex_world 0 "[]" ex_walk ex_join]
  from c have a: "fst (fix_file (disk_full 2) ex_m1 ex_world) = Inr ()" by blast
  from c t have b: "console (snd (fix_file (disk_full 2) ex_m1 ex_world))
       = console ex_world @ [Error_processing ex_m1 (OSError (u ''No space left on device''))]"
    by blast
  from c have m: "fst (main ex_walk ex_join (first_call (disk_full 2)) ex_world) = Inr ()"
    by blast
  from c d have mc: "console (snd (main ex_walk ex_join (first_call (disk_full 2)) ex_world))
              = console ex_world
                @ concat (map (\<lambda>i. reports (first_call (disk_full 2) i)
                                      (manifests ex_walk ex_join ! i) ex_world)
                            [0..<length (manifests ex_walk ex_join)])"
    by blast
  from c d have mf: "\<forall>i < length (manifests ex_walk ex_join).
                 files (snd (main ex_walk ex_join (first_call (disk_full 2)) ex_world))
                   (manifests ex_walk ex_join ! i)
                   = files (snd (fix_file (first_call (disk_full 2) i)
                               (manifests ex_walk ex_join ! i) ex_world))
                       (manifests ex_walk ex_join ! i)"
    by blast
  have mc': "console (snd (main ex_walk ex_join (first_call (disk_full 2)) ex_world))
       = [Error_processing ex_m1 (OSError (u ''No space left on device'')), Fixed ex_m2]"
    unfolding mc ex_paths(1) c0
    by (simp add: upt_conv_Cons ex_env_simps r0 r1 del: upt_Suc)
  have mf0: "files (snd (main ex_walk ex_join (first_call (disk_full 2)) ex_world)) ex_m1
       = Some [Byte 32, Byte 32]"
    using mf [unfolded ex_paths(1), rule_format, of 0] by (simp add: ex_env_simps f0)
  have mf1: "files (snd (main ex_walk ex_join (first_call (disk_full 2)) ex_world)) ex_m2
       = Some (utf8 (u ''  web3_universal_core: ^0.1.1'' @ [10]))"
    using mf [unfolded ex_paths(1), rule_format, of 1] by (simp add: ex_env_simps f1)
  show ?thesis
    using h1 h2 ex_io_failures(1) ex_env_simps(5) ex_paths(1) t a b c0 m mc' mf0 mf1 by simp
qed

theorem C7_counterexample:
  "io_failures_only unreadable_unprintable
   \<and> fst (fix_file_try unreadable_unprintable ex_m1 ex_world)
       = Inl (OSError (u ''Permission denied''))
   \<and> fix_file unreadable_unprintable ex_m1 ex_world = (Inl (OSError (u ''Broken pipe'')), ex_world)
   \<and> manifests ex_walk ex_join = [ex_m1, ex_m2]
   \<and> main ex_walk ex_join (first_call unreadable_unprintable) ex_world
       = (Inl (OSError (u ''Broken pipe'')), ex_world)
   \<and> console ex_world = []
   \<and> files ex_world ex_m2 = Some (utf8 ex_text)
   \<and> files (snd (fix_file no_faults ex_m2 ex_world)) ex_m2
       = Some (utf8 (u ''  web3_universal_core: ^0.1.1'' @ [10]))"
proof -
  have "main ex_walk ex_join (first_call unreadable_unprintable) ex_world
       = (Inl (OSError (u ''Broken pipe'')), ex_world)"
    by (simp add: main_def ex_paths(1) ex_env_simps ex_fix_unreadable)
  moreover have "console ex_world = []" by (simp add: ex_world_def)
  moreover have "files (snd (fix_file no_faults ex_m2 ex_world)) ex_m2
       = Some (utf8 (u ''  web3_universal_core: ^0.1.1'' @ [10]))"
    by (simp add: ex_fix_ok [OF ex_files(2)])
  ultimately show ?thesis
    using ex_io_failures(3) ex_try_unreadable ex_fix_unreadable ex_paths(1) ex_files(2)
    by simp
qed

text \<open>
  C8. While the file has not been opened for writing, every file is as it was: an error of
  reading, or of the opening itself, leaves the original intact. Once the file has been
  opened for writing it has been emptied, and it holds what was written: the bytes of the
  whole new text when the operating system fails no write, and otherwise the bytes that had
  reached it, a prefix of them that can end inside a character; the write then raises. What
  the file holds after it was opened is never what it held before.
\<close>

theorem C8_write_outcome:
  assumes "files w p = Some bs"
  shows "(writes (snd (fix_file e p w)) = writes w \<longrightarrow> files (snd (fix_file e p w)) = files w)
       \<and> (writes (snd (fix_file e p w)) \<noteq> writes w \<longrightarrow>
            (\<exists>content. utf8_decode bs = Some content
               \<and> files (snd (fix_file e p w)) p =
                   Some (case write_fault e of
                           None \<Rightarrow> utf8 (concat (fst (scan (readlines content))))
                         | Some (k, x) \<Rightarrow> take k (utf8 (concat (fst (scan (readlines content)))))))
            \<and> files (snd (fix_file e p w)) p \<noteq> Some bs)
       \<and> (\<forall>k x. write_fault e = Some (k, x) \<and> writes (snd (fix_file e p w)) \<noteq> writes w \<longrightarrow>
            fst (fix_file_try e p w) = Inl x)"
proof (cases e p w rule: fix_file_try_cases)
  case (read_fault x)
  then show ?thesis by (simp add: fix_file_snd)
next
  case missing
  then show ?thesis by (simp add: fix_file_snd)
next
  case (undecodable b')
  then show ?thesis by (simp add: fix_file_snd)
next
  case (unmodified b' c')
  then show ?thesis by (simp add: fix_file_snd)
next
  case (open_fault b' c' x)
  then show ?thesis by (simp add: fix_file_snd)
next
  case (write_fault b' c' k x)
  then have d: "utf8_decode bs = Some c'" using assms by simp
  from written_not_original(1) [OF d write_fault(4), of k]
  show ?thesis using write_fault d by (simp add: fix_file_snd)
next
  case (print_fault b' c' y)
  then have d: "utf8_decode bs = Some c'" using assms by simp
  from written_not_original(2) [OF d print_fault(4)]
  show ?thesis using print_fault d by (simp add: fix_file_snd)
next
  case (written b' c')
  then have d: "utf8_decode bs = Some c'" using assms by simp
  from written_not_original(2) [OF d written(4)]
  show ?thesis using written d by (simp add: fix_file_snd)
qed

theorem C8_write_outcome_witness:
  "files \<lparr>files = one_file (u ''pubspec.yaml'') (utf8 ex_accent), console = [], writes = []\<rparr>
        (u ''pubspec.yaml'') = Some (utf8 ex_accent)
   \<and> utf8_decode (utf8 ex_accent) = Some ex_accent
   \<and> fst (fix_file_try (disk_full 3) (u ''pubspec.yaml'')
        \<lparr>files = one_file (u ''pubspec.yaml'') (utf8 ex_accent), console = [], writes = []\<rparr>)
       = Inl (OSError (u ''No space left on device''))
   \<and> writes (snd (fix_file (disk_full 3) (u ''pubspec.yaml'')
        \<lparr>files = one_file (u ''pubspec.yaml'') (utf8 ex_accent), console = [], writes = []\<rparr>))
       = [u ''pubspec.yaml'']
   \<and> files (snd (fix_file (disk_full 3) (u ''pubspec.yaml'')
        \<lparr>files = one_file (u ''pubspec.yaml'') (utf8 ex_accent), console = [], writes = []\<rparr>))
        (u ''pubspec.yaml'') = Some [Byte 35, Byte 32, Byte 195]
   \<and> utf8_decode [Byte 35, Byte 32, Byte 195] = None
   \<and> Some [Byte 35, Byte 32, Byte 195] \<noteq> Some (utf8 ex_accent)"
proof -
  let ?p = "u ''pubspec.yaml''"
  let ?w = "\<lparr>files = one_file (u ''pubspec.yaml'') (utf8 ex_accent), console = [], writes = []\<rparr>"
  have f: "files ?w ?p = Some (utf8 ex_accent)"
    by (simp add: one_file_def)
  have s: "snd (scan (readlines ex_accent))"
    by (simp add: ex_accent_readlines ex_accent_scan)
  have t: "fix_file_try (disk_full 3) ?p ?w =
     (Inl (OSError (u ''No space left on device'')),
      ?w\<lparr>files := (files ?w)(?p \<mapsto> take 3 (utf8 (concat (fst (scan (readlines ex_accent)))))),
         writes := writes ?w @ [?p]\<rparr>)"
    using fix_file_try_modified [OF f ex_accent_decode s, of "disk_full 3"]
    by (simp add: ex_env_simps)
  have wr: "writes (snd (fix_file (disk_full 3) ?p ?w)) = [?p]"
    by (simp add: fix_file_snd t)
  then have ne: "writes (snd (fix_file (disk_full 3) ?p ?w)) \<noteq> writes ?w" by simp
  have k: "take 3 (utf8 (concat (fst (scan (readlines ex_accent)))))
             = [Byte 35, Byte 32, Byte 195]"
    using ex_accent_take3 by (simp add: ex_accent_readlines ex_accent_scan)
  note c = C8_write_outcome [OF f, of "disk_full 3"]
  from c ne obtain content where d: "utf8_decode (utf8 ex_accent) = Some content"
    and fs: "files (snd (fix_file (disk_full 3) ?p ?w)) ?p =
               Some (case write_fault (disk_full 3) of
                       None \<Rightarrow> utf8 (concat (fst (scan (readlines content))))
                     | Some (k, x) \<Rightarrow> take k (utf8 (concat (fst (scan (readlines content))))))"
    and nb: "files (snd (fix_file (disk_full 3) ?p ?w)) ?p \<noteq> Some (utf8 ex_accent)"
    by blast
  from d have ce: "content = ex_accent" by (simp add: ex_accent_decode)
  have fp: "files (snd (fix_file (disk_full 3) ?p ?w)) ?p = Some [Byte 35, Byte 32, Byte 195]"
    unfolding fs ce by (simp add: ex_env_simps k)
  from c ne have tr: "fst (fix_file_try (disk_full 3) ?p ?w)
                        = Inl (OSError (u ''No space left on device''))"
    by (simp add: ex_env_simps)
  from nb fp have "Some [Byte 35, Byte 32, Byte 195] \<noteq> Some (utf8 ex_accent)" by simp
  with f ex_accent_decode tr wr fp ex_torn show ?thesis by simp
qed

theorem C8_counterexample:
  "files ex_world ex_m1 = Some (utf8 ex_text)
   \<and> fst (fix_file_try (disk_full 0) ex_m1 ex_world)
       = Inl (OSError (u ''No space left on device''))
   \<and> files (snd (fix_file (disk_full 0) ex_m1 ex_world)) ex_m1 = Some []
   \<and> files (snd (fix_file (disk_full 0) ex_m1 ex_world)) ex_m1 \<noteq> files ex_world ex_m1"
proof -
  have "utf8 ex_text \<noteq> []"
    by (simp add: utf8_ascii [OF ex_ascii(1)]) (simp add: ex_text_def)
  then show ?thesis
    by (simp add: ex_files(1) ex_try_full [OF ex_files(1)] ex_fix_full [OF ex_files(1)])
qed

text \<open>
  C9. What \<open>fix_file\<close> does to a file is determined by the bytes of that file and by what the
  operating system answers: in two worlds that agree on the file, whatever else they hold
  and whatever was printed or written before, the call returns the same, leaves the same
  bytes in the file and prints the same. Processing other files first does not change the
  file, and without failures the file is left with the text the scan computes from the
  lines read.
\<close>

theorem C9_no_hidden_state:
  assumes "files w1 p = files w2 p"
  shows "fst (fix_file e p w1) = fst (fix_file e p w2)
       \<and> files (snd (fix_file e p w1)) p = files (snd (fix_file e p w2)) p
       \<and> drop (length (console w1)) (console (snd (fix_file e p w1)))
           = drop (length (console w2)) (console (snd (fix_file e p w2)))
       \<and> (p \<notin> set ps \<longrightarrow> files (snd (fix_all envs k ps w1)) p = files w1 p)
       \<and> (files w1 p = Some bs \<and> utf8_decode bs = Some content \<and> read_fault e = None
            \<and> open_w_fault e = None \<and> write_fault e = None \<longrightarrow>
          files (snd (fix_file e p w1)) p =
            Some (if snd (scan (readlines content))
                  then utf8 (concat (fst (scan (readlines content)))) else bs))"
proof -
  note fix_file_local [OF assms, of e]
  moreover have "p \<notin> set ps \<longrightarrow> files (snd (fix_all envs k ps w1)) p = files w1 p"
    using fix_all_frame by blast
  moreover have "files (snd (fix_file e p w1)) p =
            Some (if snd (scan (readlines content))
                  then utf8 (concat (fst (scan (readlines content)))) else bs)"
    if "files w1 p = Some bs \<and> utf8_decode bs = Some content \<and> read_fault e = None
            \<and> open_w_fault e = None \<and> write_fault e = None"
    using that by (cases e p w1 rule: fix_file_try_cases) (simp_all add: fix_file_snd)
  ultimately show ?thesis by blast
qed

theorem C9_no_hidden_state_witness:
  "files ex_world ex_m1
     = files (ex_world\<lparr>files := (files ex_world)(ex_m2 \<mapsto> []), console := [Fixed ex_m2],
                        writes := [ex_m2]\<rparr>) ex_m1
   \<and> fst (fix_file no_faults ex_m1 ex_world)
       = fst (fix_file no_faults ex_m1
               (ex_world\<lparr>files := (files ex_world)(ex_m2 \<mapsto> []), console := [Fixed ex_m2],
                          writes := [ex_m2]\<rparr>))
   \<and> files (snd (fix_file no_faults ex_m1 ex_world)) ex_m1
       = files (snd (fix_file no_faults ex_m1
               (ex_world\<lparr>files := (files ex_world)(ex_m2 \<mapsto> []), console := [Fixed ex_m2],
                          writes := [ex_m2]\<rparr>))) ex_m1
   \<and> drop (length (console ex_world)) (console (snd (fix_file no_faults ex_m1 ex_world)))
       = drop (length (console (ex_world\<lparr>files := (files ex_world)(ex_m2 \<mapsto> []),
                                          console := [Fixed ex_m2], writes := [ex_m2]\<rparr>)))
           (console (snd (fix_file no_faults ex_m1
               (ex_world\<lparr>files := (files ex_world)(ex_m2 \<mapsto> []), console := [Fixed ex_m2],
                          writes := [ex_m2]\<rparr>))))
   \<and> files (snd (fix_all (first_call unreadable_unprintable) 0 [ex_m2] ex_world)) ex_m1
       = files ex_world ex_m1
   \<and> files (snd (fix_file no_faults ex_m1 ex_world)) ex_m1
       = Some (utf8 (u ''  web3_universal_core: ^0.1.1'' @ [10]))"
proof -
  let ?w2 = "ex_world\<lparr>files := (files ex_world)(ex_m2 \<mapsto> []), console := [Fixed ex_m2],
                      writes := [ex_m2]\<rparr>"
  have h: "files ex_world ex_m1 = files ?w2 ex_m1" using ex_paths(2) by simp
  have n: "ex_m1 \<notin> set [ex_m2]" using ex_paths(2) by simp
  have s: "scan (readlines ex_text) = ([u ''  web3_universal_core: ^0.1.1'' @ [10]], True)"
    by (simp add: ex_readlines ex_scan)
  note c = C9_no_hidden_state [OF h, of no_faults "[ex_m2]" "first_call unreadable_unprintable" 0
             "utf8 ex_text" ex_text]
  from c have 1: "fst (fix_file no_faults ex_m1 ex_world) = fst (fix_file no_faults ex_m1 ?w2)"
    by blast
  from c have 2: "files (snd (fix_file no_faults ex_m1 ex_world)) ex_m1
       = files (snd (fix_file no_faults ex_m1 ?w2)) ex_m1"
    by blast
  from c have 3: "drop (length (console ex_world)) (console (snd (fix_file no_faults ex_m1 ex_world)))
       = drop (length (console ?w2)) (console (snd (fix_file no_faults ex_m1 ?w2)))"
    by blast
  from c n have 4: "files (snd (fix_all (first_call unreadable_unprintable) 0 [ex_m2] ex_world)) ex_m1
       = files ex_world ex_m1"
    by blast
  from c ex_files(1) ex_decode(1) ex_env_simps(1,2,3)
  have "files (snd (fix_file no_faults ex_m1 ex_world)) ex_m1 =
            Some (if snd (scan (readlines ex_text))
                  then utf8 (concat (fst (scan (readlines ex_text)))) else utf8 ex_text)"
    by blast
  then have 5: "files (snd (fix_file no_faults ex_m1 ex_world)) ex_m1
       = Some (utf8 (u ''  web3_universal_core: ^0.1.1'' @ [10]))"
    by (simp add: s)
  from h 1 2 3 4 5 show ?thesis by blast
qed

text \<open>
  C10. When the scan sets the flag, the output has as many lines fewer than the input as
  blocks were rewritten, at least one, so it is not the input. \<open>fix_file\<close> opens the file for
  writing only when the flag is set, and the text it then writes is never the text that
  was in the file, nor are its bytes the bytes that were in the file.
\<close>

theorem C10_write_only_when_different:
  assumes "files w p = Some bs"
  shows "(snd (scan ls) \<longrightarrow>
            length (fst (scan ls)) = length ls - rewrite_count ls
            \<and> length (fst (scan ls)) + rewrite_count ls = length ls
            \<and> 0 < rewrite_count ls
            \<and> length (fst (scan ls)) < length ls
            \<and> fst (scan ls) \<noteq> ls)
       \<and> (writes (snd (fix_file e p w)) \<noteq> writes w \<longrightarrow>
            (\<exists>content. utf8_decode bs = Some content
               \<and> snd (scan (readlines content))
               \<and> concat (fst (scan (readlines content))) \<noteq> content
               \<and> utf8 (concat (fst (scan (readlines content)))) \<noteq> bs))"
proof -
  have len: "length (rewrite ls) + rewrite_count ls = length ls"
    using length_rewrite [of ls] by (simp add: rewrite_count_def marks_eq)
  have pos: "0 < rewrite_count ls" if "changed ls"
    using that by (simp add: changed_iff rewrite_count_def marks_eq)
  have 1: "snd (scan ls) \<longrightarrow>
            length (fst (scan ls)) = length ls - rewrite_count ls
            \<and> length (fst (scan ls)) + rewrite_count ls = length ls
            \<and> 0 < rewrite_count ls
            \<and> length (fst (scan ls)) < length ls
            \<and> fst (scan ls) \<noteq> ls"
    using len pos by (auto simp: scan_eq)
  have 2: "\<exists>content. utf8_decode bs = Some content
               \<and> snd (scan (readlines content))
               \<and> concat (fst (scan (readlines content))) \<noteq> content
               \<and> utf8 (concat (fst (scan (readlines content)))) \<noteq> bs"
    if wr: "writes (snd (fix_file e p w)) \<noteq> writes w"
  proof -
    obtain content where d: "utf8_decode bs = Some content"
      and m: "snd (scan (readlines content))"
      using wr assms by (cases e p w rule: fix_file_try_cases) (simp_all add: fix_file_snd)
    from m have "changed (readlines content)" by (simp add: scan_eq)
    from readlines_differs [OF this]
    have "concat (fst (scan (readlines content))) \<noteq> content" by (simp add: scan_eq)
    with d m written_not_original(2) [OF d m] show ?thesis by blast
  qed
  from 1 2 show ?thesis by blast
qed

theorem C10_write_only_when_different_witness:
  "files ex_world ex_m1 = Some (utf8 ex_text)
   \<and> snd (scan [u ''  web3_universal_core:'' @ [10], u ''    path: ../core'' @ [10]])
   \<and> length (fst (scan [u ''  web3_universal_core:'' @ [10], u ''    path: ../core'' @ [10]]))
       < length [u ''  web3_universal_core:'' @ [10], u ''    path: ../core'' @ [10]]
   \<and> rewrite_count [u ''  web3_universal_core:'' @ [10], u ''    path: ../core'' @ [10]] = 1
   \<and> writes (snd (fix_file no_faults ex_m1 ex_world)) \<noteq> writes ex_world
   \<and> utf8_decode (utf8 ex_text) = Some ex_text
   \<and> concat (fst (scan (readlines ex_text))) \<noteq> ex_text
   \<and> utf8 (concat (fst (scan (readlines ex_text)))) \<noteq> utf8 ex_text"
proof -
  let ?ls = "[u ''  web3_universal_core:'' @ [10], u ''    path: ../core'' @ [10]]"
  have m: "snd (scan ?ls)" by (simp add: ex_scan)
  have l: "length (fst (scan ?ls)) = 1" by (simp add: ex_scan)
  have wr: "writes (snd (fix_file no_faults ex_m1 ex_world)) \<noteq> writes ex_world"
    by (simp add: ex_fix_ok [OF ex_files(1)])
  note c = C10_write_only_when_different [OF ex_files(1), of ?ls no_faults]
  from c m have "length (fst (scan ?ls)) + rewrite_count ?ls = length ?ls" by blast
  with l have rc: "rewrite_count ?ls = 1" by simp
  from c m have lt: "length (fst (scan ?ls)) < length ?ls" by blast
  from c wr obtain content where d: "utf8_decode (utf8 ex_text) = Some content"
    and ne: "concat (fst (scan (readlines content))) \<noteq> content"
    and nb: "utf8 (concat (fst (scan (readlines content)))) \<noteq> utf8 ex_text"
    by blast
  from d have "content = ex_text" by (simp add: ex_decode)
  with ne nb ex_files(1) m lt rc wr ex_decode(1) show ?thesis by simp
qed

end
